theory Spec2Isabelle
  imports Complex_Main "HOL-Library.Word"
begin

unbundle bit_operations_syntax

section \<open>Conventions of the embedding\<close>

text \<open>
  \<^item> \<open>size_t\<close> is a 64-bit word: \<open>+\<close> and \<open>-\<close> wrap around, comparisons are unsigned.
  \<^item> A C array reached through a pointer (\<open>float* frame\<close>, \<open>const float* src\<close>,
    \<open>float* buffer_\<close>) is a function from the index to the value stored there; an assignment
    \<open>a[i] = v\<close> is the update \<open>a(i := v)\<close>.
  \<^item> A \<open>float\<close> is a value of the type \<open>float\<close> of the next section: an IEEE 754 binary32
    number, an infinity or NaN. Every arithmetic operation of the source is the operation on
    this type, which rounds its exact result to single precision, and every comparison is the
    comparison on this type, which is false as soon as an operand is NaN.
  \<^item> A member function takes the object and returns the updated object together with what
    it returns and with the arrays it has written.
  \<^item> A data member \<open>name_\<close> of a class is the record field \<open>m_name\<close> (an Isabelle name
    cannot end in an underscore).
  \<^item> \<open>std::atomic\<close> members are plain fields: every function is run to its end before the
    next call starts.
\<close>

type_synonym size_t = "64 word"

text \<open>\<open>for (size_t i = 0; i < n; i++) body\<close>: iteration \<open>n\<close> runs after iterations \<open>0 .. n - 1\<close>.\<close>

primrec for_loop :: "nat \<Rightarrow> (nat \<Rightarrow> 's \<Rightarrow> 's) \<Rightarrow> 's \<Rightarrow> 's" where
  "for_loop 0 body s = s"
| "for_loop (Suc n) body s = body n (for_loop n body s)"

section \<open>Single-precision arithmetic\<close>

text \<open>
  The values of a \<open>float\<close> variable. \<open>Finite x\<close> is meant for the real numbers \<open>x\<close> that
  binary32 represents (predicate \<open>binary32\<close> below); the operations below return such
  values only. The two zeros of IEEE 754 are one value here: they compare equal and differ
  in their effect only as divisors, and the divisors of the source are not zero: they are
  \<open>0.1f\<close>, \<open>2147483648.0f\<close>, the frame size 480 and a \<open>std::max\<close> with \<open>0.01f\<close>.
\<close>

datatype float = Finite real | PInf | MInf | NaN

text \<open>Rounding of a real number to the nearest integer, a tie to the even one.\<close>

definition round_even :: "real \<Rightarrow> int" where
  "round_even r =
     (let f = \<lfloor>r\<rfloor>
      in if r - of_int f < 1 / 2 then f
         else if 1 / 2 < r - of_int f then f + 1
         else if even f then f else f + 1)"

text \<open>
  Rounding to binary32 (24 significant bits, least exponent \<open>- 126\<close>), to nearest and a tie
  to even: \<open>expo32 x\<close> is the exponent of the binade of \<open>x\<close>, \<open>ulp32 x\<close> the distance
  between two neighbouring binary32 numbers there (\<open>2 ^ - 149\<close> for the subnormal numbers),
  \<open>rnd32 x\<close> the nearest multiple of it, and \<open>round32 x\<close> the resulting \<open>float\<close>: an
  infinity when the rounded value is beyond the largest binary32 number.
\<close>

definition expo32 :: "real \<Rightarrow> int" where
  "expo32 x = max \<lfloor>log 2 \<bar>x\<bar>\<rfloor> (- 126)"

definition ulp32 :: "real \<Rightarrow> real" where
  "ulp32 x = 2 powi (expo32 x - 23)"

definition rnd32 :: "real \<Rightarrow> real" where
  "rnd32 x = (if x = 0 then 0 else of_int (round_even (x / ulp32 x)) * ulp32 x)"

definition round32 :: "real \<Rightarrow> float" where
  "round32 x =
     (let y = rnd32 x
      in if 2 ^ 128 \<le> \<bar>y\<bar> then (if 0 < x then PInf else MInf) else Finite y)"

text \<open>The values that a \<open>float\<close> variable can hold.\<close>

definition binary32 :: "float \<Rightarrow> bool" where
  "binary32 a = (case a of Finite x \<Rightarrow> rnd32 x = x \<and> \<bar>x\<bar> < 2 ^ 128 | _ \<Rightarrow> True)"

text \<open>
  The operations \<open>-a\<close>, \<open>a + b\<close>, \<open>a - b\<close>, \<open>a * b\<close>, \<open>a / b\<close> and \<open>std::sqrt(a)\<close> on
  \<open>float\<close>, each rounded on its own (no fused multiply-add, no wider intermediate result),
  and the comparisons \<open>a < b\<close> and \<open>a <= b\<close>; \<open>a >= b\<close> is \<open>fle b a\<close>.
\<close>

fun fneg :: "float \<Rightarrow> float" where
  "fneg (Finite x) = Finite (- x)"
| "fneg PInf = MInf"
| "fneg MInf = PInf"
| "fneg NaN = NaN"

fun fadd :: "float \<Rightarrow> float \<Rightarrow> float" where
  "fadd NaN b = NaN"
| "fadd a NaN = NaN"
| "fadd (Finite x) (Finite y) = round32 (x + y)"
| "fadd PInf MInf = NaN"
| "fadd MInf PInf = NaN"
| "fadd PInf b = PInf"
| "fadd a PInf = PInf"
| "fadd MInf b = MInf"
| "fadd a MInf = MInf"

definition fsub :: "float \<Rightarrow> float \<Rightarrow> float" where
  "fsub a b = fadd a (fneg b)"

fun fmul :: "float \<Rightarrow> float \<Rightarrow> float" where
  "fmul NaN b = NaN"
| "fmul a NaN = NaN"
| "fmul (Finite x) (Finite y) = round32 (x * y)"
| "fmul (Finite x) PInf = (if x = 0 then NaN else if 0 < x then PInf else MInf)"
| "fmul (Finite x) MInf = (if x = 0 then NaN else if 0 < x then MInf else PInf)"
| "fmul PInf (Finite y) = (if y = 0 then NaN else if 0 < y then PInf else MInf)"
| "fmul MInf (Finite y) = (if y = 0 then NaN else if 0 < y then MInf else PInf)"
| "fmul PInf PInf = PInf"
| "fmul PInf MInf = MInf"
| "fmul MInf PInf = MInf"
| "fmul MInf MInf = PInf"

fun fdiv :: "float \<Rightarrow> float \<Rightarrow> float" where
  "fdiv NaN b = NaN"
| "fdiv a NaN = NaN"
| "fdiv (Finite x) (Finite y) =
     (if y = 0 then (if x = 0 then NaN else if 0 < x then PInf else MInf)
      else round32 (x / y))"
| "fdiv (Finite x) b = Finite 0"
| "fdiv PInf (Finite y) = (if 0 \<le> y then PInf else MInf)"
| "fdiv MInf (Finite y) = (if 0 \<le> y then MInf else PInf)"
| "fdiv a b = NaN"

fun fsqrt :: "float \<Rightarrow> float" where
  "fsqrt (Finite x) = (if x < 0 then NaN else round32 (sqrt x))"
| "fsqrt PInf = PInf"
| "fsqrt MInf = NaN"
| "fsqrt NaN = NaN"

fun flt :: "float \<Rightarrow> float \<Rightarrow> bool" where
  "flt NaN b = False"
| "flt a NaN = False"
| "flt (Finite x) (Finite y) = (x < y)"
| "flt a MInf = False"
| "flt MInf b = True"
| "flt PInf b = False"
| "flt a PInf = True"

fun fle :: "float \<Rightarrow> float \<Rightarrow> bool" where
  "fle NaN b = False"
| "fle a NaN = False"
| "fle (Finite x) (Finite y) = (x \<le> y)"
| "fle MInf b = True"
| "fle a PInf = True"
| "fle a b = False"

text \<open>
  A literal \<open>0.08f\<close> is the binary32 number nearest to the decimal number, \<open>flit (8 / 100)\<close>;
  a conversion \<open>static_cast<float>(n)\<close> of an integer is \<open>round32\<close> of its value.
\<close>

definition flit :: "real \<Rightarrow> float" where
  "flit r = round32 r"

section \<open>ringbuffer.h\<close>

text \<open>
  The loop of \<open>nextPowerOf2\<close>, \<open>for (size_t i = 1; i < sizeof(size_t) * 8; i *= 2) n |= n >> i\<close>.
  It is entered with \<open>i = 1\<close>; the test \<open>0 < i\<close> only makes the recursion total.
\<close>

function nextPowerOf2_loop :: "nat \<Rightarrow> size_t \<Rightarrow> size_t" where
  "nextPowerOf2_loop i n =
     (if 0 < i \<and> i < 64 then nextPowerOf2_loop (i * 2) (n OR drop_bit i n) else n)"
  by pat_completeness auto
termination
  by (relation "measure (\<lambda>(i, n). 64 - i)") auto

declare nextPowerOf2_loop.simps [simp del]

definition nextPowerOf2 :: "size_t \<Rightarrow> size_t" where
  "nextPowerOf2 n = (if n = 0 then 1 else nextPowerOf2_loop 1 (n - 1) + 1)"

record RingBuffer =
  m_capacity :: size_t
  m_mask :: size_t
  m_buffer :: "size_t \<Rightarrow> float"
  m_read_idx :: size_t
  m_write_idx :: size_t

text \<open>
  The constructor. \<open>mem\<close> is what the freshly allocated \<open>new float[capacity_]\<close> happens to
  hold.
\<close>

definition RingBuffer_new :: "size_t \<Rightarrow> (size_t \<Rightarrow> float) \<Rightarrow> RingBuffer" where
  "RingBuffer_new capacity mem =
     \<lparr>m_capacity = nextPowerOf2 capacity, m_mask = nextPowerOf2 capacity - 1,
      m_buffer = mem, m_read_idx = 0, m_write_idx = 0\<rparr>"

definition available_read :: "RingBuffer \<Rightarrow> size_t" where
  "available_read rb =
     (let w = m_write_idx rb; r = m_read_idx rb
      in if w \<ge> r then w - r else m_capacity rb - (r - w))"

definition available_write :: "RingBuffer \<Rightarrow> size_t" where
  "available_write rb = m_capacity rb - available_read rb - 1"

definition capacity :: "RingBuffer \<Rightarrow> size_t" where
  "capacity rb = m_capacity rb"

text \<open>
  \<open>RingBuffer::write(src, count)\<close>; it returns the buffer and the number of samples
  written. (\<open>write\<close> and \<open>read\<close> are taken as names in Isabelle, hence the prefix.)
\<close>

definition rb_write :: "RingBuffer \<Rightarrow> (nat \<Rightarrow> float) \<Rightarrow> size_t \<Rightarrow> RingBuffer \<times> size_t" where
  "rb_write rb src count =
     (let w = m_write_idx rb;
          r = m_read_idx rb;
          used = (if w \<ge> r then w - r else m_capacity rb - (r - w));
          free = m_capacity rb - used - 1;
          count = (if count > free then free else count)
      in if count = 0 then (rb, 0)
         else (rb\<lparr>m_buffer := for_loop (unat count)
                       (\<lambda>i buf. buf((w + of_nat i) AND m_mask rb := src i)) (m_buffer rb),
                   m_write_idx := w + count\<rparr>, count))"

text \<open>
  \<open>RingBuffer::read(dst, count)\<close>; it returns the buffer, the array \<open>dst\<close> as it has been
  filled, and the number of samples read.
\<close>

definition rb_read ::
  "RingBuffer \<Rightarrow> (nat \<Rightarrow> float) \<Rightarrow> size_t \<Rightarrow> RingBuffer \<times> (nat \<Rightarrow> float) \<times> size_t" where
  "rb_read rb dst count =
     (let r = m_read_idx rb;
          w = m_write_idx rb;
          used = (if w \<ge> r then w - r else m_capacity rb - (r - w));
          count = (if count > used then used else count)
      in if count = 0 then (rb, dst, 0)
         else (rb\<lparr>m_read_idx := r + count\<rparr>,
               for_loop (unat count)
                 (\<lambda>i d. d(i := m_buffer rb ((r + of_nat i) AND m_mask rb))) dst,
               count))"

text \<open>Sequences of calls on one buffer, for the properties that speak of every interleaving.\<close>

datatype rb_call = Write "nat \<Rightarrow> float" size_t | Read "nat \<Rightarrow> float" size_t

fun rb_step :: "RingBuffer \<Rightarrow> rb_call \<Rightarrow> RingBuffer" where
  "rb_step rb (Write src count) = fst (rb_write rb src count)"
| "rb_step rb (Read dst count) = fst (rb_read rb dst count)"

definition rb_run :: "RingBuffer \<Rightarrow> rb_call list \<Rightarrow> RingBuffer" where
  "rb_run rb calls = foldl rb_step rb calls"

text \<open>
  Writing the chunks \<open>src[0 .. c1)\<close>, \<open>src[c1 .. c1 + c2)\<close>, ... of one array in successive
  calls; the result carries the counts the calls returned.
\<close>

fun write_chunks :: "RingBuffer \<Rightarrow> (nat \<Rightarrow> float) \<Rightarrow> size_t list \<Rightarrow> RingBuffer \<times> size_t list" where
  "write_chunks rb src [] = (rb, [])"
| "write_chunks rb src (c # cs) =
     (let (rb1, n) = rb_write rb src c;
          (rb2, ns) = write_chunks rb1 (\<lambda>i. src (unat c + i)) cs
      in (rb2, n # ns))"

text \<open>The number of samples that the \<open>write\<close> calls of a sequence report as written.\<close>

fun rb_written :: "RingBuffer \<Rightarrow> rb_call list \<Rightarrow> nat" where
  "rb_written rb [] = 0"
| "rb_written rb (Write src count # calls) =
     unat (snd (rb_write rb src count)) + rb_written (fst (rb_write rb src count)) calls"
| "rb_written rb (Read dst count # calls) = rb_written (fst (rb_read rb dst count)) calls"

section \<open>rnnoise_wrapper.h, rnnoise_wrapper.cpp\<close>

definition kRNNoiseFrameSize :: nat where
  "kRNNoiseFrameSize = 480"

definition kGainSmoothCoeff :: float where
  "kGainSmoothCoeff = flit (8 / 100)"

definition kMinGateGain :: float where
  "kMinGateGain = flit (1 / 1000)"

definition kComfortNoiseLevel :: float where
  "kComfortNoiseLevel = flit (1 / 1000)"

definition kVadHysteresis :: float where
  "kVadHysteresis = flit (1 / 10)"

record AudioMetrics =
  inputRms :: float
  outputRms :: float
  vadProbability :: float
  currentGain :: float
  framesProcessed :: "64 word"

text \<open>
  \<open>'e\<close> is the state behind the opaque \<open>DenoiseState*\<close>; \<open>m_state = None\<close> is the null
  pointer.
\<close>

record 'e RNNoiseWrapper =
  m_state :: "'e option"
  m_suppressionLevel :: float
  m_vadThreshold :: float
  m_comfortNoiseEnabled :: bool
  m_smoothGain :: float
  m_noiseState :: "32 word"
  m_metrics :: AudioMetrics

text \<open>The default constructor: the member initialisers of the class.\<close>

definition RNNoiseWrapper_new :: "'e RNNoiseWrapper" where
  "RNNoiseWrapper_new =
     \<lparr>m_state = None, m_suppressionLevel = flit 1, m_vadThreshold = flit (1 / 2),
      m_comfortNoiseEnabled = True, m_smoothGain = flit 1, m_noiseState = 0x12345678,
      m_metrics = \<lparr>inputRms = flit 0, outputRms = flit 0, vadProbability = flit 0,
                   currentGain = flit 1, framesProcessed = 0\<rparr>\<rparr>"

definition destroy :: "'e RNNoiseWrapper \<Rightarrow> 'e RNNoiseWrapper" where
  "destroy s = (if m_state s \<noteq> None then s\<lparr>m_state := None\<rparr> else s)"

text \<open>
  \<open>init()\<close>; \<open>created\<close> is what \<open>rnnoise_create(nullptr)\<close> returns, \<open>None\<close> when the engine
  cannot be created. The result carries the returned flag.
\<close>

definition init :: "'e RNNoiseWrapper \<Rightarrow> 'e option \<Rightarrow> 'e RNNoiseWrapper \<times> bool" where
  "init s created =
     (let s = (if m_state s \<noteq> None then destroy s else s)
      in (s\<lparr>m_state := created, m_smoothGain := flit 1, m_noiseState := 0x12345678,
             m_metrics := \<lparr>inputRms = flit 0, outputRms = flit 0, vadProbability = flit 0,
                           currentGain = flit 1, framesProcessed = 0\<rparr>\<rparr>,
          created \<noteq> None))"

text \<open>
  \<open>std::clamp(v, lo, hi)\<close> and \<open>std::max(a, b)\<close>, as the standard library defines them with
  \<open><\<close>: a NaN \<open>v\<close> passes through \<open>std::clamp\<close>, and \<open>std::max\<close> returns \<open>a\<close> when either
  argument is NaN.
\<close>

definition std_clamp :: "float \<Rightarrow> float \<Rightarrow> float \<Rightarrow> float" where
  "std_clamp v lo hi = (if flt v lo then lo else if flt hi v then hi else v)"

definition std_max :: "float \<Rightarrow> float \<Rightarrow> float" where
  "std_max a b = (if flt a b then b else a)"

definition setSuppressionLevel :: "'e RNNoiseWrapper \<Rightarrow> float \<Rightarrow> 'e RNNoiseWrapper" where
  "setSuppressionLevel s level = s\<lparr>m_suppressionLevel := std_clamp level (flit 0) (flit 1)\<rparr>"

definition getSuppressionLevel :: "'e RNNoiseWrapper \<Rightarrow> float" where
  "getSuppressionLevel s = m_suppressionLevel s"

definition setVadThreshold :: "'e RNNoiseWrapper \<Rightarrow> float \<Rightarrow> 'e RNNoiseWrapper" where
  "setVadThreshold s threshold = s\<lparr>m_vadThreshold := std_clamp threshold (flit 0) (flit 1)\<rparr>"

definition getVadThreshold :: "'e RNNoiseWrapper \<Rightarrow> float" where
  "getVadThreshold s = m_vadThreshold s"

definition setComfortNoise :: "'e RNNoiseWrapper \<Rightarrow> bool \<Rightarrow> 'e RNNoiseWrapper" where
  "setComfortNoise s enabled = s\<lparr>m_comfortNoiseEnabled := enabled\<rparr>"

definition isInitialized :: "'e RNNoiseWrapper \<Rightarrow> bool" where
  "isInitialized s = (m_state s \<noteq> None)"

definition computeRms :: "(nat \<Rightarrow> float) \<Rightarrow> nat \<Rightarrow> float" where
  "computeRms buf len =
     (let sum = for_loop len (\<lambda>i sum. fadd sum (fmul (buf i) (buf i))) (flit 0)
      in fsqrt (fdiv sum (round32 (real len))))"

text \<open>
  The three assignments of xorshift32 on the 32-bit \<open>noiseState_\<close>, and
  \<open>comfortNoiseSample()\<close>, which returns the sample and the new generator state.
\<close>

definition xorshift32 :: "32 word \<Rightarrow> 32 word" where
  "xorshift32 x =
     (let x = x XOR push_bit 13 x;
          x = x XOR drop_bit 17 x;
          x = x XOR push_bit 5 x
      in x)"

definition comfortNoiseSample :: "32 word \<Rightarrow> float \<times> 32 word" where
  "comfortNoiseSample noiseState =
     (let noiseState = xorshift32 noiseState;
          sample = fdiv (round32 (real_of_int (sint noiseState))) (flit 2147483648)
      in (fmul sample kComfortNoiseLevel, noiseState))"

text \<open>Step 5 of \<open>processFrame\<close>: the target gate gain from the VAD probability.\<close>

definition targetGain :: "float \<Rightarrow> float \<Rightarrow> float" where
  "targetGain vad vadThresh =
     (if fle vadThresh vad then flit 1
      else if flt vad (fsub vadThresh kVadHysteresis) then
        (let ratio = fdiv vad (std_max (fsub vadThresh kVadHysteresis) (flit (1 / 100)));
             targetGain = fadd kMinGateGain (fmul ratio (fsub (flit 1) kMinGateGain))
         in std_max targetGain kMinGateGain)
      else
        (let ratio = fdiv (fsub vad (fsub vadThresh kVadHysteresis)) kVadHysteresis
         in fadd kMinGateGain (fmul ratio (fsub (flit 1) kMinGateGain))))"

text \<open>Step 6: the two assignments to \<open>smoothGain_\<close>.\<close>

definition smoothStep :: "float \<Rightarrow> float \<Rightarrow> float" where
  "smoothStep smoothGain target =
     (let smoothGain = fadd smoothGain (fmul kGainSmoothCoeff (fsub target smoothGain))
      in std_clamp smoothGain kMinGateGain (flit 1))"

text \<open>
  Steps 2 to 4: the copy of the frame, the scaling by 32767, the engine, the scaling back and
  the blend with the original. \<open>engine\<close> stands for \<open>rnnoise_process_frame\<close>, run in place:
  from the state behind the handle and the array it returns the VAD probability, the new
  state and the array as it leaves it.
\<close>

type_synonym 'e engine = "'e \<Rightarrow> (nat \<Rightarrow> float) \<Rightarrow> float \<times> 'e \<times> (nat \<Rightarrow> float)"

definition denoiseBlend ::
  "'e engine \<Rightarrow> 'e \<Rightarrow> float \<Rightarrow> (nat \<Rightarrow> float) \<Rightarrow> float \<times> 'e \<times> (nat \<Rightarrow> float)" where
  "denoiseBlend engine st level frame =
     (let original = frame;
          frame = for_loop kRNNoiseFrameSize (\<lambda>i f. f(i := fmul (f i) (flit 32767))) frame;
          (vad, st, frame) = engine st frame;
          kInvScale = fdiv (flit 1) (flit 32767);
          frame = for_loop kRNNoiseFrameSize (\<lambda>i f. f(i := fmul (f i) kInvScale)) frame;
          frame = (if flt level (flit 1) then
                     (let dry = fsub (flit 1) level
                      in for_loop kRNNoiseFrameSize
                           (\<lambda>i f. f(i := fadd (fmul (f i) level) (fmul (original i) dry)))
                           frame)
                   else frame)
      in (vad, st, frame))"

text \<open>The loop that applies the gate gain.\<close>

definition applyGateGain :: "float \<Rightarrow> (nat \<Rightarrow> float) \<Rightarrow> (nat \<Rightarrow> float)" where
  "applyGateGain smoothGain frame =
     for_loop kRNNoiseFrameSize (\<lambda>i f. f(i := fmul (f i) smoothGain)) frame"

text \<open>Step 7: comfort noise. The loop carries the frame and the generator state.\<close>

definition addComfortNoise ::
  "bool \<Rightarrow> float \<Rightarrow> 32 word \<Rightarrow> (nat \<Rightarrow> float) \<Rightarrow> (nat \<Rightarrow> float) \<times> 32 word" where
  "addComfortNoise enabled smoothGain noiseState frame =
     (if enabled \<and> flt smoothGain (flit (1 / 10)) then
        (let comfortScale = fdiv (fsub (flit (1 / 10)) smoothGain) (flit (1 / 10))
         in for_loop kRNNoiseFrameSize
              (\<lambda>i (f, ns). let (sample, ns) = comfortNoiseSample ns
                           in (f(i := fadd (f i) (fmul sample comfortScale)), ns))
              (frame, noiseState))
      else (frame, noiseState))"

text \<open>
  \<open>processFrame(frame)\<close>: the object, the frame as it is left, and the returned value.
\<close>

definition processFrame ::
  "'e engine \<Rightarrow> 'e RNNoiseWrapper \<Rightarrow> (nat \<Rightarrow> float)
     \<Rightarrow> 'e RNNoiseWrapper \<times> (nat \<Rightarrow> float) \<times> float" where
  "processFrame engine s frame =
     (case m_state s of
        None \<Rightarrow> (s, frame, flit 0)
      | Some st \<Rightarrow>
          (let level = m_suppressionLevel s
           in if fle level (flit 0) then
                (let rms = computeRms frame kRNNoiseFrameSize;
                     m = (m_metrics s)\<lparr>inputRms := rms, outputRms := rms,
                           vadProbability := flit 0, currentGain := flit 1,
                           framesProcessed := framesProcessed (m_metrics s) + 1\<rparr>
                 in (s\<lparr>m_metrics := m\<rparr>, frame, flit 0))
              else
                (let inRms = computeRms frame kRNNoiseFrameSize;
                     (vad, st, frame) = denoiseBlend engine st level frame;
                     vadThresh = m_vadThreshold s;
                     smoothGain = smoothStep (m_smoothGain s) (targetGain vad vadThresh);
                     frame = applyGateGain smoothGain frame;
                     (frame, noiseState) =
                       addComfortNoise (m_comfortNoiseEnabled s) smoothGain (m_noiseState s) frame;
                     outRms = computeRms frame kRNNoiseFrameSize;
                     m = (m_metrics s)\<lparr>inputRms := inRms, outputRms := outRms,
                           vadProbability := vad, currentGain := smoothGain,
                           framesProcessed := framesProcessed (m_metrics s) + 1\<rparr>
                 in (s\<lparr>m_state := Some st, m_smoothGain := smoothGain,
                        m_noiseState := noiseState, m_metrics := m\<rparr>, frame, vad))))"

text \<open>Sequences of calls on one object, with the frames and settings of each call.\<close>

datatype 'e call =
    Init "'e option"
  | Destroy
  | ProcessFrame "nat \<Rightarrow> float"
  | SetSuppressionLevel float
  | SetVadThreshold float
  | SetComfortNoise bool

fun step :: "'e engine \<Rightarrow> 'e RNNoiseWrapper \<Rightarrow> 'e call \<Rightarrow> 'e RNNoiseWrapper" where
  "step engine s (Init created) = fst (init s created)"
| "step engine s Destroy = destroy s"
| "step engine s (ProcessFrame frame) = fst (processFrame engine s frame)"
| "step engine s (SetSuppressionLevel level) = setSuppressionLevel s level"
| "step engine s (SetVadThreshold threshold) = setVadThreshold s threshold"
| "step engine s (SetComfortNoise enabled) = setComfortNoise s enabled"

definition run :: "'e engine \<Rightarrow> 'e RNNoiseWrapper \<Rightarrow> 'e call list \<Rightarrow> 'e RNNoiseWrapper" where
  "run engine s calls = foldl (step engine) s calls"

text \<open>The object after \<open>processFrame\<close> has been called on the frames \<open>frames 0 .. frames (n - 1)\<close>.\<close>

primrec processFrames ::
  "'e engine \<Rightarrow> 'e RNNoiseWrapper \<Rightarrow> (nat \<Rightarrow> nat \<Rightarrow> float) \<Rightarrow> nat \<Rightarrow> 'e RNNoiseWrapper" where
  "processFrames engine s frames 0 = s"
| "processFrames engine s frames (Suc n) =
     fst (processFrame engine (processFrames engine s frames n) (frames n))"

section \<open>The ring buffer: capacity\<close>

lemma smear_step:
  fixes x y :: "64 word"
  assumes "\<And>j. bit y j \<longleftrightarrow> (\<exists>d<k. bit x (j + d))"
  shows "bit (y OR drop_bit k y) j \<longleftrightarrow> (\<exists>d<2*k. bit x (j + d))"
proof -
  have "bit (y OR drop_bit k y) j \<longleftrightarrow> bit y j \<or> bit y (k + j)"
    by (simp add: bit_or_iff bit_drop_bit_eq)
  also have "\<dots> \<longleftrightarrow> (\<exists>d<k. bit x (j + d)) \<or> (\<exists>d<k. bit x (k + j + d))"
    by (simp add: assms)
  also have "\<dots> \<longleftrightarrow> (\<exists>d<2*k. bit x (j + d))"
  proof
    assume "(\<exists>d<k. bit x (j + d)) \<or> (\<exists>d<k. bit x (k + j + d))"
    then show "\<exists>d<2*k. bit x (j + d)"
    proof
      assume "\<exists>d<k. bit x (j + d)"
      then obtain d where "d < k" "bit x (j + d)" by blast
      then show ?thesis by (intro exI[of _ d]) simp
    next
      assume "\<exists>d<k. bit x (k + j + d)"
      then obtain d where "d < k" "bit x (k + j + d)" by blast
      then show ?thesis by (intro exI[of _ "k + d"]) (simp add: ac_simps)
    qed
  next
    assume "\<exists>d<2*k. bit x (j + d)"
    then obtain d where d: "d < 2 * k" "bit x (j + d)" by blast
    show "(\<exists>d<k. bit x (j + d)) \<or> (\<exists>d<k. bit x (k + j + d))"
    proof (cases "d < k")
      case True with d show ?thesis by blast
    next
      case False
      with d have "d - k < k" "bit x (k + j + (d - k))" by (simp_all add: ac_simps)
      then show ?thesis by blast
    qed
  qed
  finally show ?thesis .
qed

lemma nextPowerOf2_loop_unroll:
  "nextPowerOf2_loop 1 x =
     (let x = x OR drop_bit 1 x; x = x OR drop_bit 2 x; x = x OR drop_bit 4 x;
          x = x OR drop_bit 8 x; x = x OR drop_bit 16 x; x = x OR drop_bit 32 x
      in x)"
  by (simp add: nextPowerOf2_loop.simps Let_def)

lemma smear_all:
  fixes x :: "64 word"
  shows "bit (nextPowerOf2_loop 1 x) j \<longleftrightarrow> (\<exists>d<64. bit x (j + d))"
proof -
  define x1 where "x1 = x OR drop_bit 1 x"
  define x2 where "x2 = x1 OR drop_bit 2 x1"
  define x3 where "x3 = x2 OR drop_bit 4 x2"
  define x4 where "x4 = x3 OR drop_bit 8 x3"
  define x5 where "x5 = x4 OR drop_bit 16 x4"
  define x6 where "x6 = x5 OR drop_bit 32 x5"
  have s0: "bit x j \<longleftrightarrow> (\<exists>d<1. bit x (j + d))" for j by simp
  have s1: "bit x1 j \<longleftrightarrow> (\<exists>d<2. bit x (j + d))" for j
    unfolding x1_def using smear_step [of x 1 x j, OF s0] by simp
  have s2: "bit x2 j \<longleftrightarrow> (\<exists>d<4. bit x (j + d))" for j
    unfolding x2_def using smear_step [of x1 2 x j, OF s1] by simp
  have s3: "bit x3 j \<longleftrightarrow> (\<exists>d<8. bit x (j + d))" for j
    unfolding x3_def using smear_step [of x2 4 x j, OF s2] by simp
  have s4: "bit x4 j \<longleftrightarrow> (\<exists>d<16. bit x (j + d))" for j
    unfolding x4_def using smear_step [of x3 8 x j, OF s3] by simp
  have s5: "bit x5 j \<longleftrightarrow> (\<exists>d<32. bit x (j + d))" for j
    unfolding x5_def using smear_step [of x4 16 x j, OF s4] by simp
  have s6: "bit x6 j \<longleftrightarrow> (\<exists>d<64. bit x (j + d))" for j
    unfolding x6_def using smear_step [of x5 32 x j, OF s5] by simp
  have "nextPowerOf2_loop 1 x = x6"
    unfolding nextPowerOf2_loop_unroll Let_def x6_def x5_def x4_def x3_def x2_def x1_def ..
  then show ?thesis using s6 by simp
qed

text \<open>
  The loop turns \<open>x\<close> into the mask of all bits up to the highest bit set in \<open>x\<close>.
\<close>

lemma bit_nat_lower: "bit (m::nat) i \<Longrightarrow> 2 ^ i \<le> m"
proof (rule ccontr)
  assume b: "bit m i" and "\<not> 2 ^ i \<le> m"
  then have "m div 2 ^ i = 0" by simp
  with b show False by (simp add: bit_iff_odd)
qed

lemma bit_nat_upper:
  assumes "\<forall>i\<ge>k. \<not> bit (m::nat) i"
  shows "m < 2 ^ k"
proof -
  have "take_bit k m = m"
    using assms by (intro bit_eqI) (auto simp add: bit_take_bit_iff not_le [symmetric])
  then show ?thesis using take_bit_nat_less_exp [of k m] by simp
qed

lemma nextPowerOf2_loop_highest_bit:
  "\<exists>k\<le>64. nextPowerOf2_loop 1 x = mask k \<and> unat x < 2 ^ k \<and> (0 < k \<longrightarrow> 2 ^ (k - 1) \<le> unat x)"
proof -
  define k where "k = (LEAST k. \<forall>i\<ge>k. \<not> bit x i)"
  have top: "\<forall>i\<ge>64. \<not> bit x i"
    by (auto dest: bit_imp_le_length)
  have k1: "\<forall>i\<ge>k. \<not> bit x i"
    unfolding k_def by (rule LeastI [of "\<lambda>k. \<forall>i\<ge>k. \<not> bit x i", OF top])
  have k2: "k \<le> 64"
    unfolding k_def by (rule Least_le [of "\<lambda>k. \<forall>i\<ge>k. \<not> bit x i", OF top])
  have k3: "\<exists>i\<ge>j. bit x i" if "j < k" for j
  proof (rule ccontr)
    assume "\<not> (\<exists>i\<ge>j. bit x i)"
    then have "\<forall>i\<ge>j. \<not> bit x i" by blast
    then have "k \<le> j" unfolding k_def by (rule Least_le)
    with that show False by simp
  qed
  have "bit (nextPowerOf2_loop 1 x) j \<longleftrightarrow> bit (mask k :: 64 word) j" for j
  proof (cases "j < k")
    case True
    then obtain i where i: "j \<le> i" "bit x i" using k3 by blast
    then have "i < 64" by (auto dest: bit_imp_le_length)
    with i have "i - j < 64" "bit x (j + (i - j))" by simp_all
    then have "bit (nextPowerOf2_loop 1 x) j" unfolding smear_all by blast
    moreover have "bit (mask k :: 64 word) j" using True k2 by (simp add: bit_mask_iff)
    ultimately show ?thesis by simp
  next
    case False
    then have "\<not> bit (nextPowerOf2_loop 1 x) j" unfolding smear_all using k1 by simp
    moreover have "\<not> bit (mask k :: 64 word) j" using False by (simp add: bit_mask_iff)
    ultimately show ?thesis by simp
  qed
  then have m: "nextPowerOf2_loop 1 x = mask k" by (intro bit_eqI) simp
  have "\<forall>i\<ge>k. \<not> bit (unat x) i"
    using k1 by (simp add: bit_unsigned_iff)
  then have u: "unat x < 2 ^ k" by (rule bit_nat_upper)
  have l: "2 ^ (k - 1) \<le> unat x" if "0 < k"
  proof -
    from that have "k - 1 < k" by simp
    from k3 [OF this] obtain i where i: "k - 1 \<le> i" "bit x i" by blast
    with k1 have "i < k" by (meson not_le)
    with i have "i = k - 1" by simp
    with i have "bit (unat x) (k - 1)" by (simp add: bit_unsigned_iff)
    then show ?thesis by (rule bit_nat_lower)
  qed
  from k2 m u l show ?thesis by blast
qed

lemma nextPowerOf2_loop_mask: "\<exists>k\<le>64. nextPowerOf2_loop 1 x = mask k"
  using nextPowerOf2_loop_highest_bit [of x] by blast

lemma nextPowerOf2_pow2: "\<exists>k\<le>64. nextPowerOf2 n = 2 ^ k"
proof (cases "n = 0")
  case True
  then have "nextPowerOf2 n = 2 ^ 0" by (simp add: nextPowerOf2_def)
  then show ?thesis by blast
next
  case False
  obtain k where "k \<le> 64" "nextPowerOf2_loop 1 (n - 1) = mask k"
    using nextPowerOf2_loop_mask by blast
  with False have "nextPowerOf2 n = 2 ^ k"
    by (simp add: nextPowerOf2_def mask_eq_exp_minus_1)
  with \<open>k \<le> 64\<close> show ?thesis by blast
qed

text \<open>
  For a request between 1 and \<open>2 ^ 63\<close> the result is the least power of two that is not
  below the request.
\<close>

lemma nextPowerOf2_least:
  assumes "n \<noteq> 0" and "unat n \<le> 2 ^ 63"
  shows "\<exists>k<64. nextPowerOf2 n = 2 ^ k \<and> unat n \<le> 2 ^ k \<and> (\<forall>j<k. 2 ^ j < unat n)"
proof -
  have n: "unat (n - 1) = unat n - 1" "0 < unat n"
    using assms(1) by (simp_all add: unat_minus_one unat_gt_0)
  obtain k where k: "k \<le> 64" "nextPowerOf2_loop 1 (n - 1) = mask k" "unat (n - 1) < 2 ^ k"
    "0 < k \<longrightarrow> 2 ^ (k - 1) \<le> unat (n - 1)"
    using nextPowerOf2_loop_highest_bit by blast
  have "k \<noteq> 64"
  proof
    assume "k = 64"
    with k(4) have "(2::nat) ^ 63 \<le> unat (n - 1)" by simp
    with n assms(2) show False by simp
  qed
  with k(1) have k64: "k < 64" by simp
  have a: "nextPowerOf2 n = 2 ^ k"
    using assms(1) k(2) by (simp add: nextPowerOf2_def mask_eq_exp_minus_1)
  have b: "unat n \<le> 2 ^ k" using k(3) n by simp
  have c: "2 ^ j < unat n" if "j < k" for j
  proof -
    from that have "0 < k" "j \<le> k - 1" by simp_all
    then have "(2::nat) ^ j \<le> 2 ^ (k - 1)" by (intro power_increasing) simp_all
    also have "\<dots> \<le> unat (n - 1)" using k(4) \<open>0 < k\<close> by simp
    also have "\<dots> < unat n" using n by simp
    finally show ?thesis .
  qed
  from k64 a b c show ?thesis by blast
qed

section \<open>The ring buffer: indices and storage\<close>

lemma unat_and_mask_add:
  fixes w :: "64 word"
  assumes "e < 64"
  shows "unat ((w + of_nat i) AND mask e) = (unat w + i) mod 2 ^ e"
proof -
  have d: "(2::nat) ^ e dvd 2 ^ 64"
    using assms by (intro le_imp_power_dvd) simp
  have "unat ((w + of_nat i) AND mask e) = take_bit e (unat (w + of_nat i))"
    by (simp only: take_bit_eq_mask [symmetric] unsigned_take_bit_eq)
  also have "\<dots> = unat (w + of_nat i) mod 2 ^ e"
    by (rule take_bit_eq_mod)
  also have "unat (w + of_nat i) = (unat w + i mod 2 ^ 64) mod 2 ^ 64"
    by (simp add: unat_word_ariths unat_of_nat)
  also have "\<dots> = (unat w + i) mod 2 ^ 64"
    by (simp add: mod_add_right_eq)
  also have "\<dots> mod 2 ^ e = (unat w + i) mod 2 ^ e"
    using d by (rule mod_mod_cancel)
  finally show ?thesis .
qed

lemma idx_inj:
  fixes w :: "64 word"
  assumes e: "e < 64" and i: "i < 2 ^ e" and j: "j < 2 ^ e"
    and eq: "(w + of_nat i) AND mask e = (w + of_nat j) AND mask e"
  shows "i = j"
proof -
  have "(unat w + i) mod 2 ^ e = (unat w + j) mod 2 ^ e"
    using eq unat_and_mask_add [OF e] by metis
  then obtain q1 q2 where "unat w + i + 2 ^ e * q1 = unat w + j + 2 ^ e * q2"
    unfolding nat_mod_eq_iff by blast
  then have "i + 2 ^ e * q1 = j + 2 ^ e * q2" by simp
  then have "i mod 2 ^ e = j mod 2 ^ e"
    unfolding nat_mod_eq_iff by blast
  with i j show ?thesis by simp
qed

lemma used_cases:
  fixes r w c :: "64 word"
  assumes "w = r + of_nat m"
  shows "(if w \<ge> r then w - r else c - (r - w)) = of_nat m
       \<or> (if w \<ge> r then w - r else c - (r - w)) = c + of_nat m"
  using assms by simp

lemma unat_of_nat64: "m < 2 ^ 64 \<Longrightarrow> unat (of_nat m :: 64 word) = m"
  by (simp add: unat_of_nat)

lemma free_ge:
  fixes r w :: "64 word"
  assumes e: "e < 64" and w: "w = r + of_nat m" and m: "m < 2 ^ e"
  shows "2 ^ e - 1 - m \<le> unat (2 ^ e - (if w \<ge> r then w - r else 2 ^ e - (r - w)) - 1)"
proof -
  have p: "(2::nat) ^ e < 2 ^ 64"
    by (rule power_strict_increasing) (use e in simp_all)
  have m64: "m < 2 ^ 64" using m p by simp
  consider (a) "(if w \<ge> r then w - r else 2 ^ e - (r - w)) = of_nat m"
    | (b) "(if w \<ge> r then w - r else 2 ^ e - (r - w)) = 2 ^ e + of_nat m"
    using used_cases [OF w, of "2 ^ e"] by blast
  then show ?thesis
  proof cases
    case a
    have "(2 ^ e - of_nat m - 1 :: 64 word) = of_nat (2 ^ e - 1 - m)"
      using m by (simp add: of_nat_diff)
    moreover have "unat (of_nat (2 ^ e - 1 - m) :: 64 word) = 2 ^ e - 1 - m"
      using p by (intro unat_of_nat64) simp
    ultimately show ?thesis using a by simp
  next
    case b
    have "(2 ^ e - (2 ^ e + of_nat m) - 1 :: 64 word) = of_nat (2 ^ 64 - 1 - m)"
      using m64 by (simp add: of_nat_diff)
    moreover have "unat (of_nat (2 ^ 64 - 1 - m) :: 64 word) = 2 ^ 64 - 1 - m"
      by (intro unat_of_nat64) simp
    ultimately show ?thesis using b p by simp
  qed
qed

lemma used_ge:
  fixes r w :: "64 word"
  assumes e: "e < 64" and w: "w = r + of_nat m" and m: "m < 2 ^ e"
  shows "m \<le> unat (if w \<ge> r then w - r else 2 ^ e - (r - w))"
proof -
  have p: "(2::nat) ^ e \<le> 2 ^ 63" using e by (intro power_increasing) simp_all
  have m64: "m < 2 ^ 64" using m p by simp
  consider (a) "(if w \<ge> r then w - r else 2 ^ e - (r - w)) = of_nat m"
    | (b) "(if w \<ge> r then w - r else 2 ^ e - (r - w)) = 2 ^ e + of_nat m"
    using used_cases [OF w, of "2 ^ e"] by blast
  then show ?thesis
  proof cases
    case a
    then show ?thesis using unat_of_nat64 [OF m64] by simp
  next
    case b
    have "(2 ^ e + of_nat m :: 64 word) = of_nat (2 ^ e + m)" by simp
    moreover have "unat (of_nat (2 ^ e + m) :: 64 word) = 2 ^ e + m"
      using m p by (intro unat_of_nat64) simp
    ultimately show ?thesis using b by simp
  qed
qed

lemma for_loop_store_other:
  "\<forall>i<n. idx i \<noteq> x \<Longrightarrow> for_loop n (\<lambda>i buf. buf(idx i := src i)) buf x = buf x"
  by (induction n) auto

lemma for_loop_store_same:
  "\<forall>i<n. i \<noteq> j \<longrightarrow> idx i \<noteq> idx j \<Longrightarrow> j < n \<Longrightarrow>
   for_loop n (\<lambda>i buf. buf(idx i := src i)) buf (idx j) = src j"
proof (induction n)
  case 0
  then show ?case by simp
next
  case (Suc n)
  show ?case
  proof (cases "j = n")
    case True
    then show ?thesis by simp
  next
    case False
    with Suc.prems have jn: "j < n" by simp
    have neq: "idx j \<noteq> idx n" using Suc.prems False by auto
    have "for_loop (Suc n) (\<lambda>i buf. buf(idx i := src i)) buf (idx j)
        = ((for_loop n (\<lambda>i buf. buf(idx i := src i)) buf)(idx n := src n)) (idx j)"
      by (simp only: for_loop.simps)
    also have "\<dots> = for_loop n (\<lambda>i buf. buf(idx i := src i)) buf (idx j)"
      using neq by (rule fun_upd_other)
    also have "\<dots> = src j"
      using Suc.prems jn by (intro Suc.IH) auto
    finally show ?thesis .
  qed
qed

lemma for_loop_copy:
  "for_loop n (\<lambda>i d. d(i := g i)) dst j = (if j < n then g j else dst j)"
  by (induction n) simp_all

lemma rb_write_fits:
  assumes e: "e < 64" and cap: "m_capacity rb = 2 ^ e"
    and w: "m_write_idx rb = m_read_idx rb + of_nat m"
    and fit: "m + unat c < 2 ^ e"
  shows "rb_write rb src c =
    (rb\<lparr>m_buffer := for_loop (unat c)
           (\<lambda>i buf. buf((m_write_idx rb + of_nat i) AND m_mask rb := src i)) (m_buffer rb),
        m_write_idx := m_write_idx rb + c\<rparr>, c)"
proof -
  let ?used = "if m_write_idx rb \<ge> m_read_idx rb then m_write_idx rb - m_read_idx rb
               else m_capacity rb - (m_read_idx rb - m_write_idx rb)"
  let ?free = "m_capacity rb - ?used - 1"
  have "m < 2 ^ e" using fit by simp
  from free_ge [OF e w this] have "2 ^ e - 1 - m \<le> unat ?free"
    by (simp only: cap)
  with fit have "unat c \<le> unat ?free" by simp
  then have "\<not> c > ?free" by (simp add: word_less_nat_alt)
  then show ?thesis
    by (cases "c = 0") (simp_all add: rb_write_def Let_def)
qed

lemma rb_read_fits:
  assumes e: "e < 64" and cap: "m_capacity rb = 2 ^ e"
    and w: "m_write_idx rb = m_read_idx rb + of_nat m"
    and m: "m < 2 ^ e" and c: "unat c \<le> m"
  shows "rb_read rb dst c =
    (rb\<lparr>m_read_idx := m_read_idx rb + c\<rparr>,
     for_loop (unat c)
       (\<lambda>i d. d(i := m_buffer rb ((m_read_idx rb + of_nat i) AND m_mask rb))) dst, c)"
proof -
  let ?used = "if m_write_idx rb \<ge> m_read_idx rb then m_write_idx rb - m_read_idx rb
               else m_capacity rb - (m_read_idx rb - m_write_idx rb)"
  from used_ge [OF e w m] have "m \<le> unat ?used"
    by (simp only: cap)
  with c have "unat c \<le> unat ?used" by simp
  then have "\<not> c > ?used" by (simp add: word_less_nat_alt)
  then show ?thesis
    by (cases "c = 0") (simp_all add: rb_read_def Let_def)
qed

lemma rb_write_fits_content:
  assumes e: "e < 64" and cap: "m_capacity rb = 2 ^ e" and mask: "m_mask rb = mask e"
    and w: "m_write_idx rb = m_read_idx rb + of_nat m"
    and fit: "m + unat c < 2 ^ e"
  shows "fst (rb_write rb src c) = rb\<lparr>m_buffer := m_buffer (fst (rb_write rb src c)),
            m_write_idx := m_read_idx rb + of_nat (m + unat c)\<rparr>"
    and "snd (rb_write rb src c) = c"
    and "\<forall>i<unat c. m_buffer (fst (rb_write rb src c))
            ((m_read_idx rb + of_nat (m + i)) AND mask e) = src i"
    and "\<forall>i<m. m_buffer (fst (rb_write rb src c)) ((m_read_idx rb + of_nat i) AND mask e)
            = m_buffer rb ((m_read_idx rb + of_nat i) AND mask e)"
proof -
  let ?r = "m_read_idx rb"
  let ?idx = "\<lambda>i. (?r + of_nat (m + i)) AND mask e"
  note wr = rb_write_fits [OF e cap w fit, of src]
  have loop: "(\<lambda>i buf. buf((m_write_idx rb + of_nat i) AND m_mask rb := src i))
            = (\<lambda>i buf. buf(?idx i := src i))"
    by (simp add: w mask add.assoc)
  have buf: "m_buffer (fst (rb_write rb src c))
           = for_loop (unat c) (\<lambda>i buf. buf(?idx i := src i)) (m_buffer rb)"
    unfolding wr loop by simp
  show "snd (rb_write rb src c) = c"
    unfolding wr by simp
  show "fst (rb_write rb src c) = rb\<lparr>m_buffer := m_buffer (fst (rb_write rb src c)),
            m_write_idx := m_read_idx rb + of_nat (m + unat c)\<rparr>"
    unfolding wr by (simp add: w add.assoc)
  show "\<forall>i<unat c. m_buffer (fst (rb_write rb src c)) (?idx i) = src i"
  proof (intro allI impI)
    fix j assume j: "j < unat c"
    have "\<forall>i<unat c. i \<noteq> j \<longrightarrow> ?idx i \<noteq> ?idx j"
    proof (intro allI impI)
      fix i assume i: "i < unat c" "i \<noteq> j"
      show "?idx i \<noteq> ?idx j"
      proof
        assume "?idx i = ?idx j"
        then have "m + i = m + j"
          using i j fit by (intro idx_inj [OF e, of _ _ ?r]) simp_all
        with i show False by simp
      qed
    qed
    then show "m_buffer (fst (rb_write rb src c)) (?idx j) = src j"
      unfolding buf using j by (rule for_loop_store_same)
  qed
  show "\<forall>i<m. m_buffer (fst (rb_write rb src c)) ((?r + of_nat i) AND mask e)
            = m_buffer rb ((?r + of_nat i) AND mask e)"
  proof (intro allI impI)
    fix j assume j: "j < m"
    have "\<forall>i<unat c. ?idx i \<noteq> (?r + of_nat j) AND mask e"
    proof (intro allI impI)
      fix i assume i: "i < unat c"
      show "?idx i \<noteq> (?r + of_nat j) AND mask e"
      proof
        assume "?idx i = (?r + of_nat j) AND mask e"
        then have "m + i = j"
          using i j fit by (intro idx_inj [OF e, of _ _ ?r]) simp_all
        with j show False by simp
      qed
    qed
    then show "m_buffer (fst (rb_write rb src c)) ((?r + of_nat j) AND mask e)
            = m_buffer rb ((?r + of_nat j) AND mask e)"
      unfolding buf by (rule for_loop_store_other)
  qed
qed

lemma write_chunks_fits:
  assumes e: "e < 64"
  shows "m_capacity rb = 2 ^ e \<Longrightarrow> m_mask rb = mask e \<Longrightarrow>
    m_write_idx rb = m_read_idx rb + of_nat m \<Longrightarrow>
    m + sum_list (map unat cs) < 2 ^ e \<Longrightarrow>
    snd (write_chunks rb src cs) = cs \<and>
    fst (write_chunks rb src cs) = rb\<lparr>m_buffer := m_buffer (fst (write_chunks rb src cs)),
        m_write_idx := m_read_idx rb + of_nat (m + sum_list (map unat cs))\<rparr> \<and>
    (\<forall>i < sum_list (map unat cs). m_buffer (fst (write_chunks rb src cs))
        ((m_read_idx rb + of_nat (m + i)) AND mask e) = src i) \<and>
    (\<forall>i<m. m_buffer (fst (write_chunks rb src cs)) ((m_read_idx rb + of_nat i) AND mask e)
        = m_buffer rb ((m_read_idx rb + of_nat i) AND mask e))"
proof (induction cs arbitrary: rb src m)
  case Nil
  then show ?case by simp
next
  case (Cons c cs)
  let ?r = "m_read_idx rb"
  let ?rb1 = "fst (rb_write rb src c)"
  let ?src1 = "\<lambda>i. src (unat c + i)"
  let ?rb2 = "fst (write_chunks ?rb1 ?src1 cs)"
  let ?t = "sum_list (map unat cs)"
  have fit: "m + unat c < 2 ^ e" using Cons.prems(4) by simp
  note W = rb_write_fits_content [OF e Cons.prems(1,2,3) fit, of src]
  have rb1: "m_capacity ?rb1 = 2 ^ e" "m_mask ?rb1 = mask e" "m_read_idx ?rb1 = ?r"
    "m_write_idx ?rb1 = m_read_idx ?rb1 + of_nat (m + unat c)"
    by (subst W(1), simp add: Cons.prems)+
  have fit1: "m + unat c + ?t < 2 ^ e" using Cons.prems(4) by simp
  note IH = Cons.IH [OF rb1(1,2,4) fit1, of ?src1, unfolded rb1(3)]
  have unfold: "write_chunks rb src (c # cs) = (?rb2, c # snd (write_chunks ?rb1 ?src1 cs))"
    using W(2) by (simp add: split_beta Let_def)
  have a: "snd (write_chunks rb src (c # cs)) = c # cs"
    unfolding unfold using IH by simp
  have b: "?rb2 = rb\<lparr>m_buffer := m_buffer ?rb2,
        m_write_idx := ?r + of_nat (m + sum_list (map unat (c # cs)))\<rparr>"
    by (subst conjunct1 [OF conjunct2 [OF IH]], subst W(1)) (simp add: add.assoc)
  have c: "m_buffer ?rb2 ((?r + of_nat (m + i)) AND mask e) = src i"
    if "i < sum_list (map unat (c # cs))" for i
  proof (cases "i < unat c")
    case True
    then have "m + i < m + unat c" by simp
    then have "m_buffer ?rb2 ((?r + of_nat (m + i)) AND mask e)
             = m_buffer ?rb1 ((?r + of_nat (m + i)) AND mask e)"
      using IH by blast
    also have "\<dots> = src i" using W(3) True by blast
    finally show ?thesis .
  next
    case False
    then have "i - unat c < ?t" using that by simp
    then have "m_buffer ?rb2 ((?r + of_nat (m + unat c + (i - unat c))) AND mask e)
             = ?src1 (i - unat c)"
      using IH by blast
    moreover have "m + unat c + (i - unat c) = m + i" "unat c + (i - unat c) = i"
      using False by simp_all
    ultimately show ?thesis by simp
  qed
  have d: "m_buffer ?rb2 ((?r + of_nat i) AND mask e) = m_buffer rb ((?r + of_nat i) AND mask e)"
    if "i < m" for i
  proof -
    from that have "i < m + unat c" by simp
    then have "m_buffer ?rb2 ((?r + of_nat i) AND mask e)
             = m_buffer ?rb1 ((?r + of_nat i) AND mask e)"
      using IH by blast
    also have "\<dots> = m_buffer rb ((?r + of_nat i) AND mask e)"
      using W(4) that by blast
    finally show ?thesis .
  qed
  show ?case
    unfolding unfold fst_conv snd_conv using a b c d unfolding unfold snd_conv by blast
qed

lemma rb_write_fields:
  "m_capacity (fst (rb_write rb src c)) = m_capacity rb"
  "m_mask (fst (rb_write rb src c)) = m_mask rb"
  "m_read_idx (fst (rb_write rb src c)) = m_read_idx rb"
  by (simp_all add: rb_write_def Let_def)

lemma rb_read_fields:
  "m_capacity (fst (rb_read rb dst c)) = m_capacity rb"
  "m_mask (fst (rb_read rb dst c)) = m_mask rb"
  "m_write_idx (fst (rb_read rb dst c)) = m_write_idx rb"
  "m_buffer (fst (rb_read rb dst c)) = m_buffer rb"
  by (simp_all add: rb_read_def Let_def)

lemma rb_run_fields:
  "m_capacity (rb_run rb calls) = m_capacity rb \<and> m_mask (rb_run rb calls) = m_mask rb"
proof (induction calls arbitrary: rb)
  case Nil
  then show ?case by (simp add: rb_run_def)
next
  case (Cons a calls)
  have "rb_run rb (a # calls) = rb_run (rb_step rb a) calls"
    by (simp add: rb_run_def)
  moreover have "m_capacity (rb_step rb a) = m_capacity rb \<and> m_mask (rb_step rb a) = m_mask rb"
    by (cases a) (simp_all add: rb_write_fields rb_read_fields)
  ultimately show ?case using Cons.IH [of "rb_step rb a"] by simp
qed

text \<open>
  Every index that \<open>write\<close> and \<open>read\<close> use lies inside the allocation of \<open>capacity_\<close>
  samples, so the function that stands for the allocation is never applied outside it. (A
  requested capacity above \<open>2 ^ 63\<close> rounds to 0; that case is excluded here.)
\<close>

lemma buffer_index_in_bounds:
  assumes "rb = rb_run (RingBuffer_new requested mem) calls" and "capacity rb \<noteq> 0"
  shows "x AND m_mask rb < m_capacity rb"
proof -
  have cap: "m_capacity rb = nextPowerOf2 requested"
    and mask: "m_mask rb = nextPowerOf2 requested - 1"
    unfolding assms(1) using rb_run_fields [of "RingBuffer_new requested mem" calls]
    by (simp_all add: RingBuffer_new_def)
  obtain e where e: "e \<le> 64" "nextPowerOf2 requested = 2 ^ e"
    using nextPowerOf2_pow2 by blast
  have "e \<noteq> 64" using assms(2) cap e by (auto simp add: capacity_def)
  with e have "e < size x" by (simp add: word_size)
  then have "x AND mask e < 2 ^ e" by (rule and_mask_less_size)
  then show ?thesis by (simp add: cap mask e mask_eq_exp_minus_1)
qed

section \<open>The ring buffer: round trip\<close>

lemma unat_pow2:
  assumes "e < 64"
  shows "unat (2 ^ e :: 64 word) = 2 ^ e"
proof -
  have p: "(2::nat) ^ e < 2 ^ 64"
    by (rule power_strict_increasing) (use assms in simp_all)
  have "(2 ^ e :: 64 word) = of_nat (2 ^ e)" by simp
  then show ?thesis using unat_of_nat64 [OF p] by simp
qed

text \<open>
  Claim C5. Take any buffer that the constructor and any calls of \<open>write\<close> and \<open>read\<close>
  have produced and that is empty (read index equal to write index), and any \<open>N\<close> samples with
  \<open>N \<le> capacity - 1\<close>. Writing them in successive calls with the counts \<open>cs\<close>, which sum
  to \<open>N\<close>, makes every call report its full count; reading \<open>N\<close> samples then reports \<open>N\<close>
  and delivers the same samples in the same order.
\<close>

theorem write_then_read_roundtrip:
  assumes reach: "rb = rb_run (RingBuffer_new requested mem) calls"
    and empty: "m_read_idx rb = m_write_idx rb"
    and total: "sum_list (map unat cs) = N"
    and fit: "N < unat (capacity rb)"
    and wr: "write_chunks rb src cs = (rb1, ns)"
    and rd: "rb_read rb1 dst (of_nat N) = (rb2, dst', k)"
  shows "ns = cs \<and> unat k = N \<and> (\<forall>i<N. dst' i = src i)"
proof -
  have cap: "m_capacity rb = nextPowerOf2 requested" and mask: "m_mask rb = nextPowerOf2 requested - 1"
    unfolding reach using rb_run_fields [of "RingBuffer_new requested mem" calls]
    by (simp_all add: RingBuffer_new_def)
  obtain e where e: "e \<le> 64" "nextPowerOf2 requested = 2 ^ e"
    using nextPowerOf2_pow2 by blast
  have "e \<noteq> 64"
  proof
    assume "e = 64"
    then have "m_capacity rb = 0" using cap e by simp
    with fit show False by (simp add: capacity_def)
  qed
  with e have e64: "e < 64" by simp
  have cap': "m_capacity rb = 2 ^ e" and mask': "m_mask rb = mask e"
    using cap mask e by (simp_all add: mask_eq_exp_minus_1)
  have N: "N < 2 ^ e" using fit unat_pow2 [OF e64] by (simp add: capacity_def cap')
  have w0: "m_write_idx rb = m_read_idx rb + of_nat 0" using empty by simp
  have fit0: "0 + sum_list (map unat cs) < 2 ^ e" using N total by simp
  note WC = write_chunks_fits [OF e64 cap' mask' w0 fit0, of src, unfolded wr fst_conv snd_conv total]
  have rb1: "m_capacity rb1 = 2 ^ e" "m_mask rb1 = mask e" "m_read_idx rb1 = m_read_idx rb"
    "m_write_idx rb1 = m_read_idx rb1 + of_nat N"
    by (subst conjunct1 [OF conjunct2 [OF WC]], simp add: cap' mask')+
  have p: "(2::nat) ^ e < 2 ^ 64"
    by (rule power_strict_increasing) (use e64 in simp_all)
  have uN: "unat (of_nat N :: 64 word) = N"
    using N p by (intro unat_of_nat64) simp
  then have "unat (of_nat N :: 64 word) \<le> N" by simp
  note RD = rb_read_fits [OF e64 rb1(1) rb1(4) N this, of dst, unfolded rd]
  have k: "k = of_nat N" using RD by simp
  have "dst' i = src i" if "i < N" for i
  proof -
    have "dst' i = m_buffer rb1 ((m_read_idx rb1 + of_nat i) AND m_mask rb1)"
      using RD that by (simp add: for_loop_copy uN)
    also have "\<dots> = src i"
      using WC that by (simp add: rb1)
    finally show ?thesis .
  qed
  with WC k uN show ?thesis by simp
qed

theorem write_then_read_roundtrip_witness:
  "let rb = rb_run (RingBuffer_new 4 (\<lambda>_. Finite 0))
              [Write (\<lambda>i. Finite (real i)) 3, Read (\<lambda>_. Finite 0) 2, Read (\<lambda>_. Finite 0) 5];
       cs = [2, 1];
       src = (\<lambda>i. Finite (real i + 10));
       rb1 = fst (write_chunks rb src cs);
       r = rb_read rb1 (\<lambda>_. Finite 0) (of_nat 3)
   in m_read_idx rb = 3 \<and> m_write_idx rb = 3 \<and> sum_list (map unat cs) = 3 \<and>
      3 < unat (capacity rb) \<and>
      snd (write_chunks rb src cs) = cs \<and> unat (snd (snd r)) = 3 \<and>
      map (fst (snd r)) [0, 1, 2] = [Finite 10, Finite 11, Finite 12]"
proof -
  let ?rb = "rb_run (RingBuffer_new 4 (\<lambda>_. Finite 0))
              [Write (\<lambda>i. Finite (real i)) 3, Read (\<lambda>_. Finite 0) 2, Read (\<lambda>_. Finite 0) 5]"
  let ?cs = "[2, 1] :: size_t list"
  let ?src = "\<lambda>i. Finite (real i + 10)"
  let ?rb1 = "fst (write_chunks ?rb ?src ?cs)"
  let ?r = "rb_read ?rb1 (\<lambda>_. Finite 0) (of_nat 3)"
  have c: "nextPowerOf2 4 = 4"
    by (simp add: nextPowerOf2_def nextPowerOf2_loop.simps)
  have h0: "m_read_idx ?rb = 3" "m_write_idx ?rb = 3"
    by (simp_all add: rb_run_def RingBuffer_new_def rb_write_def rb_read_def Let_def c)
  have h1: "m_read_idx ?rb = m_write_idx ?rb"
    by (simp only: h0)
  have h2: "sum_list (map unat ?cs) = 3" by simp
  have "m_capacity ?rb = 4"
    using rb_run_fields [of "RingBuffer_new 4 (\<lambda>_. Finite 0)"] by (simp add: RingBuffer_new_def c)
  then have h3: "3 < unat (capacity ?rb)"
    by (simp add: capacity_def)
  have h4: "write_chunks ?rb ?src ?cs = (?rb1, snd (write_chunks ?rb ?src ?cs))" by simp
  have h5: "?r = (fst ?r, fst (snd ?r), snd (snd ?r))" by simp
  note T = write_then_read_roundtrip [OF refl h1 h2 h3 h4 h5]
  have "map (fst (snd ?r)) [0, 1, 2] = [Finite 10, Finite 11, Finite 12]"
    using T by simp
  with T h0 h2 h3 show ?thesis unfolding Let_def by blast
qed

section \<open>The ring buffer: the scenario with requested capacity 100\<close>

lemma nextPowerOf2_100: "nextPowerOf2 100 = 128"
  by (simp add: nextPowerOf2_def nextPowerOf2_loop.simps)

lemma RingBuffer_new_100:
  "m_capacity (RingBuffer_new 100 mem) = 2 ^ 7"
  "m_mask (RingBuffer_new 100 mem) = mask 7"
  "m_read_idx (RingBuffer_new 100 mem) = 0"
  "m_write_idx (RingBuffer_new 100 mem) = 0"
  by (simp_all add: RingBuffer_new_def nextPowerOf2_100 mask_eq_exp_minus_1)

lemma rb_write_130:
  "rb_write (RingBuffer_new 100 mem) src 130 = rb_write (RingBuffer_new 100 mem) src 127"
  by (simp add: rb_write_def Let_def RingBuffer_new_100)

lemma rb_read_empty:
  assumes "m_read_idx rb = m_write_idx rb"
  shows "rb_read rb dst c = (rb, dst, 0)"
proof -
  have "\<not> c > 0 \<Longrightarrow> c = 0" by (simp add: word_gt_0)
  then show ?thesis by (auto simp add: rb_read_def Let_def assms)
qed

text \<open>
  Claim C9. A buffer constructed with requested capacity 100 has capacity 128, and a requested
  capacity of 0 gives 1. One \<open>write\<close> of 130 samples into the new buffer returns 127 and
  stores the first 127 samples; a \<open>read\<close> of 127 samples then returns 127 and delivers these
  samples in their order; a further \<open>read\<close>, of any count, returns 0 and delivers nothing.
\<close>

theorem requested_100_scenario:
  "let rb0 = RingBuffer_new 100 mem;
       (rb1, n) = rb_write rb0 src 130;
       (rb2, out, k) = rb_read rb1 dst 127;
       (rb3, out', k') = rb_read rb2 dst' c
   in capacity rb0 = 128 \<and> capacity (RingBuffer_new 0 mem') = 1 \<and>
      n = 127 \<and> map (\<lambda>i. m_buffer rb1 (of_nat i)) [0..<127] = map src [0..<127] \<and>
      k = 127 \<and> map out [0..<127] = map src [0..<127] \<and>
      k' = 0 \<and> out' = dst'"
proof -
  let ?rb0 = "RingBuffer_new 100 mem"
  let ?rb1 = "fst (rb_write ?rb0 src 127)"
  let ?rb2 = "fst (rb_read ?rb1 dst 127)"
  have e: "(7::nat) < 64" by simp
  have w0: "m_write_idx ?rb0 = m_read_idx ?rb0 + of_nat 0"
    by (simp add: RingBuffer_new_100)
  have fit: "0 + unat (127 :: size_t) < 2 ^ 7" by simp
  note W = rb_write_fits_content [OF e RingBuffer_new_100(1,2) w0 fit, of src]
  have rb1: "m_capacity ?rb1 = 2 ^ 7" "m_mask ?rb1 = mask 7" "m_read_idx ?rb1 = 0"
    "m_write_idx ?rb1 = m_read_idx ?rb1 + of_nat 127"
    by (subst W(1), simp add: RingBuffer_new_100)+
  have pos: "(0 + of_nat i :: size_t) AND mask 7 = of_nat i" if "i < 127" for i
  proof -
    have "unat ((0 + of_nat i :: size_t) AND mask 7) = (unat (0 :: size_t) + i) mod 2 ^ 7"
      by (rule unat_and_mask_add) simp
    also have "\<dots> = i" using that by simp
    also have "\<dots> = unat (of_nat i :: size_t)"
      using that by (intro unat_of_nat64 [symmetric]) simp
    finally show ?thesis by (simp only: word_unat_eq_iff)
  qed
  have u127: "unat (127 :: size_t) = 127" by simp
  have stored: "m_buffer ?rb1 (of_nat i) = src i" if "i < 127" for i
  proof -
    have "m_buffer ?rb1 ((m_read_idx ?rb0 + of_nat (0 + i)) AND mask 7) = src i"
      using W(3) [unfolded u127] that by blast
    then show ?thesis using pos [OF that] by (simp add: RingBuffer_new_100)
  qed
  have n: "snd (rb_write ?rb0 src 127) = 127" by (rule W(2))
  have u: "unat (127 :: size_t) \<le> 127" by simp
  note R = rb_read_fits [OF e rb1(1) rb1(4) _ u, of dst]
  have R': "rb_read ?rb1 dst 127 =
      (?rb1\<lparr>m_read_idx := 127\<rparr>, for_loop 127 (\<lambda>i d. d(i := m_buffer ?rb1 (of_nat i AND mask 7))) dst, 127)"
    using R by (simp add: rb1)
  have out: "fst (snd (rb_read ?rb1 dst 127)) i = src i" if "i < 127" for i
    unfolding R' using that stored [OF that] pos [OF that] by (simp add: for_loop_copy)
  have rb2: "m_read_idx ?rb2 = 127" "m_write_idx ?rb2 = 127"
    unfolding R' by (simp_all add: rb1)
  have last: "rb_read ?rb2 dst' c = (?rb2, dst', 0)"
    by (rule rb_read_empty) (simp add: rb2)
  have "nextPowerOf2 0 = 1" by (simp add: nextPowerOf2_def)
  then have caps: "capacity ?rb0 = 128" "capacity (RingBuffer_new 0 mem') = 1"
    by (simp_all add: capacity_def RingBuffer_new_def nextPowerOf2_100)
  show ?thesis
    unfolding Let_def rb_write_130 split_beta
    using caps n stored out last R' by (simp add: split_beta)
qed

section \<open>The ring buffer: the indices in every sequence of calls\<close>

lemma round_trip_step:
  assumes "m_capacity rb = 2" "m_read_idx rb = k" "m_write_idx rb = k"
  shows "m_capacity (rb_step (rb_step rb (Write src 1)) (Read dst 1)) = 2
       \<and> m_read_idx (rb_step (rb_step rb (Write src 1)) (Read dst 1)) = k + 1
       \<and> m_write_idx (rb_step (rb_step rb (Write src 1)) (Read dst 1)) = k + 1"
  using assms by (simp add: rb_write_def rb_read_def Let_def)

lemma round_trips:
  "m_capacity rb = 2 \<Longrightarrow> m_read_idx rb = k \<Longrightarrow> m_write_idx rb = k \<Longrightarrow>
   m_capacity (rb_run rb (concat (replicate n [Write src 1, Read dst 1]))) = 2
   \<and> m_read_idx (rb_run rb (concat (replicate n [Write src 1, Read dst 1]))) = k + of_nat n
   \<and> m_write_idx (rb_run rb (concat (replicate n [Write src 1, Read dst 1]))) = k + of_nat n"
proof (induction n arbitrary: rb k)
  case 0
  then show ?case by (simp add: rb_run_def)
next
  case (Suc n)
  let ?rb' = "rb_step (rb_step rb (Write src 1)) (Read dst 1)"
  have "rb_run rb (concat (replicate (Suc n) [Write src 1, Read dst 1]))
      = rb_run ?rb' (concat (replicate n [Write src 1, Read dst 1]))"
    by (simp add: rb_run_def)
  moreover note round_trip_step [OF Suc.prems, of src dst]
  ultimately show ?case
    using Suc.IH [of ?rb' "k + 1"] by (simp add: add.assoc)
qed

text \<open>
  As long as the \<open>write\<close> calls have reported fewer than \<open>2 ^ 64\<close> samples in total, the
  write index has not wrapped, the indices stay in order and at most \<open>capacity - 1\<close> samples
  are stored. A \<open>write\<close> never reports more than \<open>available_write()\<close>, wrapped or not.
\<close>

lemma rb_write_result:
  "snd (rb_write rb src c) =
     (if c > available_write rb then available_write rb else c)"
  "m_write_idx (fst (rb_write rb src c)) = m_write_idx rb + snd (rb_write rb src c)"
  "m_read_idx (fst (rb_write rb src c)) = m_read_idx rb"
  by (simp_all add: rb_write_def available_write_def available_read_def Let_def)

lemma rb_read_result:
  "snd (snd (rb_read rb dst c)) =
     (if c > available_read rb then available_read rb else c)"
  "m_read_idx (fst (rb_read rb dst c)) = m_read_idx rb + snd (snd (rb_read rb dst c))"
  by (simp_all add: rb_read_def available_read_def Let_def)

lemma unat_free:
  fixes u :: "64 word"
  assumes e: "e < 64" and u: "unat u < 2 ^ e"
  shows "unat (2 ^ e - u - 1) = 2 ^ e - 1 - unat u"
proof -
  have p: "(2::nat) ^ e < 2 ^ 64"
    by (rule power_strict_increasing) (use e in simp_all)
  define d where "d = unat u"
  have ud: "u = of_nat d" by (simp add: d_def)
  have "d < 2 ^ e" using u by (simp add: d_def)
  then have "(2 ^ e - of_nat d - 1 :: 64 word) = of_nat (2 ^ e - 1 - d)"
    by (simp add: of_nat_diff)
  moreover have "unat (of_nat (2 ^ e - 1 - d) :: 64 word) = 2 ^ e - 1 - d"
    using p by (intro unat_of_nat64) simp
  ultimately have "unat (2 ^ e - of_nat d - 1 :: 64 word) = 2 ^ e - 1 - d" by simp
  then show ?thesis by (simp add: d_def)
qed

lemma in_order_available:
  assumes e: "e < 64" and cap: "m_capacity rb = 2 ^ e"
    and le: "m_read_idx rb \<le> m_write_idx rb"
    and used: "unat (m_write_idx rb) - unat (m_read_idx rb) < 2 ^ e"
  shows "unat (available_read rb) = unat (m_write_idx rb) - unat (m_read_idx rb)"
    and "unat (available_write rb) = 2 ^ e - 1 - (unat (m_write_idx rb) - unat (m_read_idx rb))"
proof -
  have ar: "available_read rb = m_write_idx rb - m_read_idx rb"
    using le by (simp add: available_read_def Let_def)
  show a: "unat (available_read rb) = unat (m_write_idx rb) - unat (m_read_idx rb)"
    unfolding ar using le by (rule unat_sub)
  have "unat (available_read rb) < 2 ^ e" using a used by simp
  from unat_free [OF e this] a
  show "unat (available_write rb) = 2 ^ e - 1 - (unat (m_write_idx rb) - unat (m_read_idx rb))"
    by (simp add: available_write_def cap)
qed

lemma rb_write_in_order:
  assumes e: "e < 64" and cap: "m_capacity rb = 2 ^ e"
    and le: "m_read_idx rb \<le> m_write_idx rb"
    and used: "unat (m_write_idx rb) - unat (m_read_idx rb) < 2 ^ e"
    and nowrap: "unat (m_write_idx rb) + unat (snd (rb_write rb src c)) < 2 ^ 64"
  shows "m_read_idx (fst (rb_write rb src c)) \<le> m_write_idx (fst (rb_write rb src c))"
    and "unat (m_write_idx (fst (rb_write rb src c)))
           - unat (m_read_idx (fst (rb_write rb src c))) < 2 ^ e"
    and "unat (m_write_idx (fst (rb_write rb src c)))
           = unat (m_write_idx rb) + unat (snd (rb_write rb src c))"
proof -
  let ?n = "snd (rb_write rb src c)"
  note A = in_order_available [OF e cap le used]
  have n: "unat ?n \<le> unat (available_write rb)"
    unfolding rb_write_result by (simp add: word_less_nat_alt)
  have rw: "unat (m_read_idx rb) \<le> unat (m_write_idx rb)"
    using le by (simp add: word_le_nat_alt)
  show w: "unat (m_write_idx (fst (rb_write rb src c)))
           = unat (m_write_idx rb) + unat ?n"
    unfolding rb_write_result(2) using nowrap by (simp add: unat_add_lem [THEN iffD1])
  show "m_read_idx (fst (rb_write rb src c)) \<le> m_write_idx (fst (rb_write rb src c))"
    unfolding word_le_nat_alt w unfolding rb_write_result(3) using rw by simp
  show "unat (m_write_idx (fst (rb_write rb src c)))
           - unat (m_read_idx (fst (rb_write rb src c))) < 2 ^ e"
    unfolding w unfolding rb_write_result(3) using n A(2) rw used by simp
qed

lemma rb_read_in_order:
  assumes e: "e < 64" and cap: "m_capacity rb = 2 ^ e"
    and le: "m_read_idx rb \<le> m_write_idx rb"
    and used: "unat (m_write_idx rb) - unat (m_read_idx rb) < 2 ^ e"
  shows "m_read_idx (fst (rb_read rb dst c)) \<le> m_write_idx (fst (rb_read rb dst c))"
    and "unat (m_write_idx (fst (rb_read rb dst c)))
           - unat (m_read_idx (fst (rb_read rb dst c))) < 2 ^ e"
proof -
  let ?n = "snd (snd (rb_read rb dst c))"
  note A = in_order_available [OF e cap le used]
  have n: "unat ?n \<le> unat (available_read rb)"
    unfolding rb_read_result by (simp add: word_less_nat_alt)
  have rw: "unat (m_read_idx rb) \<le> unat (m_write_idx rb)"
    using le by (simp add: word_le_nat_alt)
  have "unat (m_read_idx rb) + unat ?n \<le> unat (m_write_idx rb)"
    using n A(1) rw by simp
  moreover have "unat (m_write_idx rb) < 2 ^ 64"
    using unsigned_less [of "m_write_idx rb", where 'a = nat] by simp
  ultimately have "unat (m_read_idx rb) + unat ?n < 2 ^ 64" by simp
  then have r: "unat (m_read_idx (fst (rb_read rb dst c))) = unat (m_read_idx rb) + unat ?n"
    unfolding rb_read_result(2) by (simp add: unat_add_lem [THEN iffD1])
  show "m_read_idx (fst (rb_read rb dst c)) \<le> m_write_idx (fst (rb_read rb dst c))"
    unfolding word_le_nat_alt r rb_read_fields using n A(1) rw by simp
  show "unat (m_write_idx (fst (rb_read rb dst c)))
           - unat (m_read_idx (fst (rb_read rb dst c))) < 2 ^ e"
    unfolding r rb_read_fields using used by simp
qed

lemma rb_run_in_order:
  assumes e: "e < 64"
  shows "m_capacity rb = 2 ^ e \<Longrightarrow> m_read_idx rb \<le> m_write_idx rb \<Longrightarrow>
    unat (m_write_idx rb) - unat (m_read_idx rb) < 2 ^ e \<Longrightarrow>
    unat (m_write_idx rb) + rb_written rb calls < 2 ^ 64 \<Longrightarrow>
    m_read_idx (rb_run rb calls) \<le> m_write_idx (rb_run rb calls) \<and>
    unat (m_write_idx (rb_run rb calls)) - unat (m_read_idx (rb_run rb calls)) < 2 ^ e"
proof (induction calls arbitrary: rb)
  case Nil
  then show ?case by (simp add: rb_run_def)
next
  case (Cons a calls)
  have run: "rb_run rb (x # calls) = rb_run (rb_step rb x) calls" for x
    by (simp add: rb_run_def)
  show ?case
  proof (cases a)
    case (Write src c)
    let ?rb1 = "fst (rb_write rb src c)"
    have nowrap: "unat (m_write_idx rb) + unat (snd (rb_write rb src c)) < 2 ^ 64"
      using Cons.prems(4) Write by simp
    note W = rb_write_in_order [OF e Cons.prems(1,2,3) nowrap]
    have "unat (m_write_idx ?rb1) + rb_written ?rb1 calls < 2 ^ 64"
      unfolding W(3) using Cons.prems(4) Write by simp
    with W show ?thesis
      unfolding run Write rb_step.simps
      by (intro Cons.IH) (simp_all add: rb_write_fields Cons.prems)
  next
    case (Read dst c)
    let ?rb1 = "fst (rb_read rb dst c)"
    note R = rb_read_in_order [OF e Cons.prems(1,2,3), of dst c]
    have "unat (m_write_idx ?rb1) + rb_written ?rb1 calls < 2 ^ 64"
      using Cons.prems(4) Read by (simp add: rb_read_fields)
    with R show ?thesis
      unfolding run Read rb_step.simps
      by (intro Cons.IH) (simp_all add: rb_read_fields Cons.prems)
  qed
qed

lemma less_than_2_64_samples_in_order:
  assumes cap: "capacity (RingBuffer_new requested mem) \<noteq> 0"
    and total: "rb_written (RingBuffer_new requested mem) calls < 2 ^ 64"
    and rb: "rb = rb_run (RingBuffer_new requested mem) calls"
  shows "unat (m_read_idx rb) \<le> unat (m_write_idx rb)"
    and "unat (m_write_idx rb) \<le> unat (m_read_idx rb) + unat (capacity rb) - 1"
    and "unat (available_read rb) \<le> unat (capacity rb) - 1"
proof -
  let ?rb0 = "RingBuffer_new requested mem"
  obtain e where e: "e \<le> 64" "nextPowerOf2 requested = 2 ^ e"
    using nextPowerOf2_pow2 by blast
  have "e \<noteq> 64" using cap e by (auto simp add: capacity_def RingBuffer_new_def)
  with e have e64: "e < 64" by simp
  have rb0: "m_capacity ?rb0 = 2 ^ e" "m_read_idx ?rb0 \<le> m_write_idx ?rb0"
    "unat (m_write_idx ?rb0) - unat (m_read_idx ?rb0) < 2 ^ e"
    "unat (m_write_idx ?rb0) + rb_written ?rb0 calls < 2 ^ 64"
    using e total by (simp_all add: RingBuffer_new_def)
  note I = rb_run_in_order [OF e64 rb0, folded rb]
  have c: "m_capacity rb = 2 ^ e"
    unfolding rb using rb_run_fields [of ?rb0 calls] rb0(1) by simp
  note A = in_order_available [OF e64 c conjunct1 [OF I] conjunct2 [OF I]]
  show "unat (m_read_idx rb) \<le> unat (m_write_idx rb)"
    using I by (simp add: word_le_nat_alt)
  have u: "unat (capacity rb) = 2 ^ e" "0 < (2::nat) ^ e"
    by (simp_all add: capacity_def c unat_pow2 [OF e64])
  have d: "unat (m_write_idx rb) - unat (m_read_idx rb) < 2 ^ e"
    using I by simp
  show "unat (m_write_idx rb) \<le> unat (m_read_idx rb) + unat (capacity rb) - 1"
    unfolding u(1) using d u(2) by linarith
  show "unat (available_read rb) \<le> unat (capacity rb) - 1"
    unfolding u(1) A(1) using d u(2) by linarith
qed

text \<open>
  Claim C4. The claim bounds \<open>available_read()\<close> by \<open>capacity - 1\<close> after every sequence of
  calls. The indices are stored unmasked and wrap around at \<open>2 ^ 64\<close>. On a buffer of capacity
  2, after \<open>2 ^ 64 - 1\<close> rounds of writing one sample and reading it, one more \<open>write\<close> of
  one sample wraps the write index to 0 while the read index is \<open>2 ^ 64 - 1\<close>: the branch for
  \<open>w < r\<close> then computes \<open>capacity_ - (r - w)\<close>, so \<open>available_read()\<close> is 3 with one
  sample stored, \<open>available_write()\<close> is \<open>2 ^ 64 - 2\<close>, and a \<open>write\<close> of 5 samples
  into this buffer of capacity 2 returns 5.
\<close>

theorem write_index_wrap:
  "let rb = rb_run (RingBuffer_new 2 (\<lambda>_. Finite 0))
              (concat (replicate (2 ^ 64 - 1) [Write (\<lambda>_. Finite 0) 1, Read (\<lambda>_. Finite 0) 1])
               @ [Write (\<lambda>_. Finite 0) 1])
   in unat (capacity rb) = 2 \<and> unat (m_read_idx rb) = 2 ^ 64 - 1 \<and>
      unat (m_write_idx rb) = 0 \<and> unat (available_read rb) = 3 \<and>
      unat (available_write rb) = 2 ^ 64 - 2 \<and>
      unat (snd (rb_write rb (\<lambda>_. Finite 0) 5)) = 5"
proof -
  let ?rb0 = "RingBuffer_new 2 (\<lambda>_. Finite 0)"
  let ?calls = "concat (replicate (2 ^ 64 - 1) [Write (\<lambda>_. Finite 0) 1, Read (\<lambda>_. Finite 0) 1])"
  let ?rb1 = "rb_run ?rb0 ?calls"
  have c: "nextPowerOf2 2 = 2"
    by (simp add: nextPowerOf2_def nextPowerOf2_loop.simps)
  have rb0: "m_capacity ?rb0 = 2" "m_read_idx ?rb0 = 0" "m_write_idx ?rb0 = 0"
    by (simp_all add: RingBuffer_new_def c)
  have m1: "(0 + of_nat (2 ^ 64 - 1) :: size_t) = - 1"
    by simp
  note R = round_trips [OF rb0, of "2 ^ 64 - 1" "\<lambda>_. Finite 0" "\<lambda>_. Finite 0", unfolded m1]
  have run: "rb_run ?rb0 (?calls @ [Write (\<lambda>_. Finite 0) 1]) = rb_step ?rb1 (Write (\<lambda>_. Finite 0) 1)"
    by (simp add: rb_run_def)
  have last: "m_capacity (rb_step ?rb1 (Write (\<lambda>_. Finite 0) 1)) = 2"
    "m_read_idx (rb_step ?rb1 (Write (\<lambda>_. Finite 0) 1)) = - 1"
    "m_write_idx (rb_step ?rb1 (Write (\<lambda>_. Finite 0) 1)) = 0"
    using R by (simp_all add: rb_write_def Let_def)
  have u: "unat (- 1 :: size_t) = 2 ^ 64 - 1" "unat (- 2 :: size_t) = 2 ^ 64 - 2"
    by (simp_all add: unsigned_minus_1_eq_mask mask_eq_exp_minus_1)
  have aw: "available_write (rb_step ?rb1 (Write (\<lambda>_. Finite 0) 1)) = - 2"
    using last by (simp add: available_read_def available_write_def)
  have "\<not> (5 :: size_t) > - 2"
    by (simp add: word_less_nat_alt u)
  then have w5: "snd (rb_write (rb_step ?rb1 (Write (\<lambda>_. Finite 0) 1)) (\<lambda>_. Finite 0) 5) = 5"
    unfolding rb_write_result(1) aw by simp
  show ?thesis
    unfolding Let_def run w5 using last u
    by (simp add: capacity_def available_read_def available_write_def)
qed

section \<open>Single-precision arithmetic: rounding\<close>

lemma round_even_cases:
  "round_even r = \<lfloor>r\<rfloor> \<or> round_even r = \<lfloor>r\<rfloor> + 1"
  by (simp add: round_even_def Let_def)

lemma round_even_error: "\<bar>of_int (round_even r) - r\<bar> \<le> 1 / 2"
proof -
  have "of_int \<lfloor>r\<rfloor> \<le> r" "r < of_int \<lfloor>r\<rfloor> + 1" by linarith+
  then show ?thesis
    by (auto simp add: round_even_def Let_def not_less)
qed

lemma round_even_eqI:
  assumes "\<bar>r - of_int n\<bar> < 1 / 2"
  shows "round_even r = n"
proof -
  have "\<bar>of_int (round_even r) - r\<bar> \<le> 1 / 2" by (rule round_even_error)
  with assms have "real_of_int (round_even r) < of_int (n + 1)" "real_of_int n < of_int (round_even r + 1)"
    unfolding of_int_add of_int_1 by linarith+
  then have "round_even r < n + 1" "n < round_even r + 1"
    by (simp_all only: of_int_less_iff)
  then show ?thesis by linarith
qed

lemma round_even_of_int [simp]: "round_even (of_int n) = n"
  by (rule round_even_eqI) simp

lemma round_even_mono:
  assumes "r \<le> s"
  shows "round_even r \<le> round_even s"
proof (cases "\<lfloor>r\<rfloor> = \<lfloor>s\<rfloor>")
  case True
  then show ?thesis using assms
    by (auto simp add: round_even_def Let_def)
next
  case False
  with assms have "\<lfloor>r\<rfloor> + 1 \<le> \<lfloor>s\<rfloor>"
    using floor_mono [OF assms] by linarith
  moreover have "round_even r \<le> \<lfloor>r\<rfloor> + 1" using round_even_cases [of r] by auto
  moreover have "\<lfloor>s\<rfloor> \<le> round_even s" using round_even_cases [of s] by auto
  ultimately show ?thesis by linarith
qed

lemma round_even_minus: "round_even (- r) = - round_even r"
proof (cases "r = of_int \<lfloor>r\<rfloor>")
  case True
  then obtain n where "r = of_int n" ..
  then have "round_even (- r) = round_even (of_int (- n))" by simp
  also have "\<dots> = - n" by (rule round_even_of_int)
  finally show ?thesis using \<open>r = of_int n\<close> by simp
next
  case False
  have a: "of_int \<lfloor>r\<rfloor> < r" "r < of_int \<lfloor>r\<rfloor> + 1"
    using False by linarith+
  have fl: "\<lfloor>- r\<rfloor> = - \<lfloor>r\<rfloor> - 1"
  proof (rule floor_unique)
    show "real_of_int (- \<lfloor>r\<rfloor> - 1) \<le> - r"
      unfolding of_int_diff of_int_minus of_int_1 using a by linarith
    show "- r < real_of_int (- \<lfloor>r\<rfloor> - 1) + 1"
      unfolding of_int_diff of_int_minus of_int_1 using a by linarith
  qed
  show ?thesis
    using a by (auto simp add: round_even_def Let_def fl)
qed

lemma powr_powi: "(2::real) powr (of_int k) = 2 powi k"
  by (simp add: powr_real_of_int' )

lemma floor_log_bounds:
  assumes "x \<noteq> 0"
  shows "2 powi \<lfloor>log 2 \<bar>x\<bar>\<rfloor> \<le> \<bar>x\<bar>" "\<bar>x\<bar> < 2 powi (\<lfloor>log 2 \<bar>x\<bar>\<rfloor> + 1)"
proof -
  have "0 < \<bar>x\<bar>" using assms by simp
  then have "2 powr (of_int \<lfloor>log 2 \<bar>x\<bar>\<rfloor>) \<le> \<bar>x\<bar> \<and> \<bar>x\<bar> < 2 powr (of_int (\<lfloor>log 2 \<bar>x\<bar>\<rfloor> + 1))"
    using floor_log_eq_powr_iff [of "\<bar>x\<bar>" 2 "\<lfloor>log 2 \<bar>x\<bar>\<rfloor>"] by simp
  then show "2 powi \<lfloor>log 2 \<bar>x\<bar>\<rfloor> \<le> \<bar>x\<bar>" "\<bar>x\<bar> < 2 powi (\<lfloor>log 2 \<bar>x\<bar>\<rfloor> + 1)"
    unfolding powr_powi by simp_all
qed

lemma floor_log_eqI:
  assumes "2 powi e \<le> \<bar>x\<bar>" "\<bar>x\<bar> < 2 powi (e + 1)"
  shows "\<lfloor>log 2 \<bar>x\<bar>\<rfloor> = e"
proof -
  have "(0::real) < 2 powi e" by simp
  with assms have "0 < \<bar>x\<bar>" by linarith
  moreover have "2 powr (of_int e) \<le> \<bar>x\<bar> \<and> \<bar>x\<bar> < 2 powr (of_int (e + 1))"
    unfolding powr_powi using assms by simp
  ultimately show ?thesis
    using floor_log_eq_powr_iff [of "\<bar>x\<bar>" 2 e] by simp
qed

lemma expo32_ge: "- 126 \<le> expo32 x"
  by (simp add: expo32_def)

lemma expo32_minus [simp]: "expo32 (- x) = expo32 x"
  by (simp add: expo32_def)

lemma expo32_upper:
  assumes "x \<noteq> 0"
  shows "\<bar>x\<bar> < 2 powi (expo32 x + 1)"
proof -
  have "\<bar>x\<bar> < 2 powi (\<lfloor>log 2 \<bar>x\<bar>\<rfloor> + 1)" using assms by (rule floor_log_bounds)
  also have "\<dots> \<le> 2 powi (expo32 x + 1)"
    by (rule power_int_increasing) (simp_all add: expo32_def)
  finally show ?thesis .
qed

lemma expo32_lower:
  assumes "2 powi (- 126) \<le> \<bar>x\<bar>"
  shows "2 powi (expo32 x) \<le> \<bar>x\<bar>"
proof -
  have "(0::real) < 2 powi (- 126)" by simp
  with assms have nz: "x \<noteq> 0" by auto
  show ?thesis
  proof (cases "- 126 \<le> \<lfloor>log 2 \<bar>x\<bar>\<rfloor>")
    case True
    then have "expo32 x = \<lfloor>log 2 \<bar>x\<bar>\<rfloor>" by (simp add: expo32_def)
    then show ?thesis using floor_log_bounds(1) [OF nz] by simp
  next
    case False
    then have "expo32 x = - 126" by (simp add: expo32_def)
    then show ?thesis using assms by simp
  qed
qed

lemma expo32_eqI:
  assumes "- 126 \<le> e" "2 powi e \<le> \<bar>x\<bar>" "\<bar>x\<bar> < 2 powi (e + 1)"
  shows "expo32 x = e"
  using floor_log_eqI [OF assms(2,3)] assms(1) by (simp add: expo32_def)

lemma expo32_subnormal:
  assumes "x \<noteq> 0" "\<bar>x\<bar> < 2 powi (- 126)"
  shows "expo32 x = - 126"
proof -
  have "\<not> - 126 < \<lfloor>log 2 \<bar>x\<bar>\<rfloor>"
  proof
    assume "- 126 < \<lfloor>log 2 \<bar>x\<bar>\<rfloor>"
    then have "(2::real) powi (- 126) \<le> 2 powi \<lfloor>log 2 \<bar>x\<bar>\<rfloor>"
      by (intro power_int_increasing) simp_all
    also have "\<dots> \<le> \<bar>x\<bar>" using assms(1) by (rule floor_log_bounds)
    finally show False using assms(2) by simp
  qed
  then show ?thesis by (simp add: expo32_def)
qed

lemma expo32_mono:
  assumes "x \<noteq> 0" "\<bar>x\<bar> \<le> \<bar>y\<bar>"
  shows "expo32 x \<le> expo32 y"
proof -
  have "y \<noteq> 0" using assms by auto
  have "0 < \<bar>x\<bar>" using assms by simp
  then have "log 2 \<bar>x\<bar> \<le> log 2 \<bar>y\<bar>" using assms(2) by simp
  then have "\<lfloor>log 2 \<bar>x\<bar>\<rfloor> \<le> \<lfloor>log 2 \<bar>y\<bar>\<rfloor>" by (rule floor_mono)
  then show ?thesis by (simp add: expo32_def)
qed

lemma ulp32_pos [simp]: "0 < ulp32 x"
  by (simp add: ulp32_def)

lemma ulp32_nonneg [simp]: "0 \<le> ulp32 x"
  by (simp add: ulp32_def)

lemma ulp32_nonzero [simp]: "ulp32 x \<noteq> 0"
  by (simp add: ulp32_def)

lemma ulp32_minus [simp]: "ulp32 (- x) = ulp32 x"
  by (simp add: ulp32_def)

lemma rnd32_minus: "rnd32 (- x) = - rnd32 x"
  by (simp add: rnd32_def round_even_minus)

lemma rnd32_0 [simp]: "rnd32 0 = 0"
  by (simp add: rnd32_def)

lemma rnd32_alt: "rnd32 x = of_int (round_even (x / ulp32 x)) * ulp32 x"
  by (simp add: rnd32_def) (metis round_even_of_int of_int_0)

lemma rnd32_nonneg: "0 \<le> x \<Longrightarrow> 0 \<le> rnd32 x"
proof -
  assume "0 \<le> x"
  then have "0 \<le> x / ulp32 x" by simp
  then have "round_even 0 \<le> round_even (x / ulp32 x)" by (rule round_even_mono)
  then have "0 \<le> round_even (x / ulp32 x)" using round_even_of_int [of 0] by simp
  then show ?thesis unfolding rnd32_alt by simp
qed

lemma rnd32_nonpos: "x \<le> 0 \<Longrightarrow> rnd32 x \<le> 0"
  using rnd32_nonneg [of "- x"] by (simp add: rnd32_minus)

lemma rnd32_error: "\<bar>rnd32 x - x\<bar> \<le> ulp32 x / 2"
proof -
  have "rnd32 x - x = (of_int (round_even (x / ulp32 x)) - x / ulp32 x) * ulp32 x"
    unfolding rnd32_alt by (simp add: left_diff_distrib)
  then have "\<bar>rnd32 x - x\<bar> = \<bar>of_int (round_even (x / ulp32 x)) - x / ulp32 x\<bar> * ulp32 x"
    by (simp add: abs_mult)
  also have "\<dots> \<le> 1 / 2 * ulp32 x"
    by (rule mult_right_mono [OF round_even_error]) simp
  finally show ?thesis by simp
qed

lemma p2_split:
  "(2::real) powi e = 2 ^ 23 * 2 powi (e - 23)"
  "(2::real) powi (e + 1) = 2 ^ 24 * 2 powi (e - 23)"
proof -
  have "e = 23 + (e - 23)" by simp
  then have "(2::real) powi e = 2 powi (23 + (e - 23))" by (rule arg_cong)
  also have "\<dots> = 2 powi 23 * 2 powi (e - 23)" by (rule power_int_add) simp
  finally show "(2::real) powi e = 2 ^ 23 * 2 powi (e - 23)" by simp
  have "e + 1 = 24 + (e - 23)" by simp
  then have "(2::real) powi (e + 1) = 2 powi (24 + (e - 23))" by (rule arg_cong)
  also have "\<dots> = 2 powi 24 * 2 powi (e - 23)" by (rule power_int_add) simp
  finally show "(2::real) powi (e + 1) = 2 ^ 24 * 2 powi (e - 23)" by simp
qed

lemma expo32_cases:
  assumes "x \<noteq> 0"
  shows "expo32 x = - 126 \<or> 2 powi (expo32 x) \<le> \<bar>x\<bar>"
proof (cases "- 126 \<le> \<lfloor>log 2 \<bar>x\<bar>\<rfloor>")
  case True
  then have "expo32 x = \<lfloor>log 2 \<bar>x\<bar>\<rfloor>" by (simp add: expo32_def)
  then show ?thesis using floor_log_bounds(1) [OF assms] by simp
next
  case False
  then show ?thesis by (simp add: expo32_def)
qed

lemma expo32_eqI2:
  assumes "y \<noteq> 0" "\<bar>y\<bar> < 2 powi (e + 1)" "e = - 126 \<or> (- 126 \<le> e \<and> 2 powi e \<le> \<bar>y\<bar>)"
  shows "expo32 y = e"
proof (cases "2 powi e \<le> \<bar>y\<bar>")
  case True
  with assms show ?thesis by (intro expo32_eqI) auto
next
  case False
  with assms have e: "e = - 126" by auto
  with False have "\<bar>y\<bar> < 2 powi (- 126)" by simp
  then show ?thesis using expo32_subnormal [OF assms(1)] e by simp
qed

text \<open>The rounded value stays in the binade of the argument.\<close>

lemma rnd32_upper:
  assumes "0 \<le> x"
  shows "rnd32 x \<le> 2 powi (expo32 x + 1)"
proof (cases "x = 0")
  case True
  then show ?thesis by simp
next
  case False
  have "\<bar>x\<bar> < 2 powi (expo32 x + 1)" using False by (rule expo32_upper)
  then have "x \<le> 2 ^ 24 * ulp32 x"
    using assms unfolding ulp32_def p2_split(2) by simp
  then have "x / ulp32 x \<le> of_int (2 ^ 24)"
    by (simp add: pos_divide_le_eq)
  then have "round_even (x / ulp32 x) \<le> round_even (of_int (2 ^ 24))"
    by (rule round_even_mono)
  then have "round_even (x / ulp32 x) \<le> 2 ^ 24"
    unfolding round_even_of_int .
  then have "real_of_int (round_even (x / ulp32 x)) \<le> 2 ^ 24"
    by (metis of_int_le_iff of_int_numeral of_int_power)
  then have "rnd32 x \<le> 2 ^ 24 * ulp32 x"
    unfolding rnd32_alt by (intro mult_right_mono) simp_all
  then show ?thesis unfolding ulp32_def p2_split(2) .
qed

lemma rnd32_lower:
  assumes "0 \<le> x" "2 powi (expo32 x) \<le> x"
  shows "2 powi (expo32 x) \<le> rnd32 x"
proof -
  have "2 ^ 23 * ulp32 x \<le> x"
    using assms(2) unfolding ulp32_def p2_split(1) [of "expo32 x"] .
  then have "of_int (2 ^ 23) \<le> x / ulp32 x"
    by (simp add: pos_le_divide_eq)
  then have "round_even (of_int (2 ^ 23)) \<le> round_even (x / ulp32 x)"
    by (rule round_even_mono)
  then have "2 ^ 23 \<le> round_even (x / ulp32 x)"
    unfolding round_even_of_int .
  then have "2 ^ 23 \<le> real_of_int (round_even (x / ulp32 x))"
    by (metis of_int_le_iff of_int_numeral of_int_power)
  then have "2 ^ 23 * ulp32 x \<le> rnd32 x"
    unfolding rnd32_alt by (intro mult_right_mono) simp_all
  then show ?thesis unfolding ulp32_def p2_split(1) [of "expo32 x"] .
qed

lemma rnd32_mono_pos:
  assumes "0 < x" "x \<le> y"
  shows "rnd32 x \<le> rnd32 y"
proof (cases "expo32 x = expo32 y")
  case True
  then have u: "ulp32 x = ulp32 y" by (simp add: ulp32_def)
  have "x / ulp32 y \<le> y / ulp32 y" using assms by (simp add: divide_right_mono)
  then have "round_even (x / ulp32 y) \<le> round_even (y / ulp32 y)" by (rule round_even_mono)
  then have "real_of_int (round_even (x / ulp32 y)) \<le> real_of_int (round_even (y / ulp32 y))"
    by simp
  then show ?thesis unfolding rnd32_alt u by (intro mult_right_mono) simp_all
next
  case False
  have "expo32 x \<le> expo32 y" using assms by (intro expo32_mono) auto
  with False have lt: "expo32 x + 1 \<le> expo32 y" by simp
  then have "- 126 < expo32 y" using expo32_ge [of x] by linarith
  then have "expo32 y \<noteq> - 126" by simp
  moreover have "y \<noteq> 0" using assms by auto
  ultimately have "2 powi (expo32 y) \<le> \<bar>y\<bar>" using expo32_cases [of y] by blast
  then have ly: "2 powi (expo32 y) \<le> y" using assms by simp
  have "rnd32 x \<le> 2 powi (expo32 x + 1)" using assms by (intro rnd32_upper) simp
  also have "\<dots> \<le> 2 powi (expo32 y)" using lt by (intro power_int_increasing) simp_all
  also have "\<dots> \<le> rnd32 y" using assms ly by (intro rnd32_lower) simp_all
  finally show ?thesis .
qed

lemma rnd32_mono:
  assumes "x \<le> y"
  shows "rnd32 x \<le> rnd32 y"
proof -
  consider "0 < x" | "x \<le> 0" "0 \<le> y" | "y < 0" by linarith
  then show ?thesis
  proof cases
    case 1
    then show ?thesis using assms by (rule rnd32_mono_pos)
  next
    case 2
    then show ?thesis using rnd32_nonpos [of x] rnd32_nonneg [of y] by linarith
  next
    case 3
    then have "rnd32 (- y) \<le> rnd32 (- x)" using assms by (intro rnd32_mono_pos) simp_all
    then show ?thesis by (simp add: rnd32_minus)
  qed
qed

text \<open>A multiple of the unit in the last place is not changed by rounding.\<close>

lemma rnd32_fix:
  assumes "x = of_int n * ulp32 x"
  shows "rnd32 x = x"
proof -
  have "x / ulp32 x = of_int n" using assms by (simp add: nonzero_divide_eq_eq)
  then show ?thesis unfolding rnd32_alt using assms by simp
qed

lemma rnd32_eqI:
  assumes "- 126 \<le> e" "2 powi e \<le> \<bar>x\<bar>" "\<bar>x\<bar> < 2 powi (e + 1)"
    and "\<bar>x / 2 powi (e - 23) - of_int n\<bar> < 1 / 2"
  shows "rnd32 x = of_int n * 2 powi (e - 23)"
proof -
  have "expo32 x = e" using assms(1-3) by (rule expo32_eqI)
  then have u: "ulp32 x = 2 powi (e - 23)" by (simp add: ulp32_def)
  have "round_even (x / 2 powi (e - 23)) = n" using assms(4) by (rule round_even_eqI)
  then show ?thesis unfolding rnd32_alt u by simp
qed

lemma rnd32_exact:
  assumes "- 126 \<le> e" "2 powi e \<le> \<bar>x\<bar>" "\<bar>x\<bar> < 2 powi (e + 1)"
    and "x = of_int n * 2 powi (e - 23)"
  shows "rnd32 x = x"
proof -
  have "expo32 x = e" using assms(1-3) by (rule expo32_eqI)
  then have u: "ulp32 x = 2 powi (e - 23)" by (simp add: ulp32_def)
  show ?thesis by (rule rnd32_fix [of _ n]) (simp add: u assms(4) [symmetric])
qed

lemma rnd32_idem_pos:
  assumes "0 < x"
  shows "rnd32 (rnd32 x) = rnd32 x"
proof (cases "rnd32 x = 0")
  case True
  then show ?thesis by simp
next
  case False
  define e where "e = expo32 x"
  define n where "n = round_even (x / ulp32 x)"
  have y: "rnd32 x = of_int n * 2 powi (e - 23)"
    unfolding rnd32_alt n_def e_def ulp32_def ..
  have pos: "0 < rnd32 x" using rnd32_nonneg [of x] assms False by simp
  have up: "rnd32 x \<le> 2 powi (e + 1)" unfolding e_def using assms by (intro rnd32_upper) simp
  have ge: "- 126 \<le> e" unfolding e_def by (rule expo32_ge)
  show ?thesis
  proof (cases "rnd32 x = 2 powi (e + 1)")
    case True
    have "rnd32 (2 powi (e + 1)) = 2 powi (e + 1)"
    proof (rule rnd32_exact [where e = "e + 1" and n = "2 ^ 23"])
      show "- 126 \<le> e + 1" using ge by simp
      show "2 powi (e + 1) \<le> \<bar>(2::real) powi (e + 1)\<bar>" by simp
      have "(2::real) powi (e + 1) < 2 powi (e + 1 + 1)"
        by (rule power_int_strict_increasing) simp_all
      then show "\<bar>(2::real) powi (e + 1)\<bar> < 2 powi (e + 1 + 1)" by simp
      show "(2::real) powi (e + 1) = real_of_int (2 ^ 23) * 2 powi (e + 1 - 23)"
        using p2_split(1) [of "e + 1"] by simp
    qed
    then show ?thesis unfolding True .
  next
    case F: False
    with up have lt: "rnd32 x < 2 powi (e + 1)" by simp
    have "expo32 (rnd32 x) = e"
    proof (rule expo32_eqI2)
      show "rnd32 x \<noteq> 0" by fact
      show "\<bar>rnd32 x\<bar> < 2 powi (e + 1)" using lt pos by simp
      have "x \<noteq> 0" using assms by simp
      from expo32_cases [OF this] show "e = - 126 \<or> - 126 \<le> e \<and> 2 powi e \<le> \<bar>rnd32 x\<bar>"
      proof
        assume "expo32 x = - 126"
        then show ?thesis by (simp add: e_def)
      next
        assume "2 powi expo32 x \<le> \<bar>x\<bar>"
        then have "2 powi expo32 x \<le> x" using assms by simp
        then have "2 powi expo32 x \<le> rnd32 x" using assms by (intro rnd32_lower) simp_all
        then show ?thesis using ge pos by (simp add: e_def)
      qed
    qed
    then have "ulp32 (rnd32 x) = 2 powi (e - 23)" by (simp add: ulp32_def)
    then show ?thesis by (intro rnd32_fix [of _ n]) (simp add: y)
  qed
qed

lemma rnd32_idem [simp]: "rnd32 (rnd32 x) = rnd32 x"
proof -
  consider "0 < x" | "x = 0" | "0 < - x" by linarith
  then show ?thesis
  proof cases
    case 1
    then show ?thesis by (rule rnd32_idem_pos)
  next
    case 2
    then show ?thesis by simp
  next
    case 3
    then have "rnd32 (rnd32 (- x)) = rnd32 (- x)" by (rule rnd32_idem_pos)
    then show ?thesis by (simp add: rnd32_minus)
  qed
qed

lemma rnd32_rel_error:
  assumes "2 powi (- 126) \<le> \<bar>x\<bar>"
  shows "\<bar>rnd32 x - x\<bar> \<le> \<bar>x\<bar> / 2 ^ 24"
proof -
  have "2 powi (expo32 x) \<le> \<bar>x\<bar>" using assms by (rule expo32_lower)
  then have "2 ^ 23 * ulp32 x \<le> \<bar>x\<bar>"
    unfolding ulp32_def p2_split(1) [of "expo32 x"] .
  then have "ulp32 x / 2 \<le> \<bar>x\<bar> / 2 ^ 24" by simp
  with rnd32_error [of x] show ?thesis by linarith
qed

lemma rnd32_pow2:
  assumes "- 126 \<le> e"
  shows "rnd32 (2 powi e) = 2 powi e"
proof (rule rnd32_exact [where e = e and n = "2 ^ 23"])
  show "- 126 \<le> e" by fact
  show "2 powi e \<le> \<bar>(2::real) powi e\<bar>" by simp
  have "(2::real) powi e < 2 powi (e + 1)"
    by (rule power_int_strict_increasing) simp_all
  then show "\<bar>(2::real) powi e\<bar> < 2 powi (e + 1)" by simp
  show "(2::real) powi e = real_of_int (2 ^ 23) * 2 powi (e - 23)"
    using p2_split(1) [of e] by simp
qed

lemma rnd32_1 [simp]: "rnd32 1 = 1"
  using rnd32_pow2 [of 0] by simp

lemma rnd32_abs_le:
  assumes "\<bar>x\<bar> \<le> b" "rnd32 b = b"
  shows "\<bar>rnd32 x\<bar> \<le> b"
proof -
  have "rnd32 x \<le> rnd32 b" using assms(1) by (intro rnd32_mono) simp
  moreover have "rnd32 (- b) \<le> rnd32 x" using assms(1) by (intro rnd32_mono) simp
  ultimately show ?thesis using assms(2) by (simp add: rnd32_minus)
qed

lemma round32_Finite:
  assumes "\<bar>rnd32 x\<bar> < 2 ^ 128"
  shows "round32 x = Finite (rnd32 x)"
  using assms by (simp add: round32_def Let_def)

lemma round32_small:
  assumes "\<bar>x\<bar> \<le> 2 ^ 127"
  shows "round32 x = Finite (rnd32 x)"
proof -
  have "rnd32 (2 powi 127) = 2 powi 127" by (rule rnd32_pow2) simp
  then have "rnd32 (2 ^ 127) = 2 ^ 127" by simp
  from rnd32_abs_le [OF assms this] show ?thesis by (intro round32_Finite) simp
qed

lemma round32_not_NaN [simp]: "round32 x \<noteq> NaN"
  by (simp add: round32_def Let_def)

lemma k_val: "rnd32 (1 / 1000) = 8589935 / 2 ^ 33"
  using rnd32_eqI [of "- 10" "1 / 1000" 8589935] by simp

lemma c_val: "rnd32 (8 / 100) = 10737418 / 2 ^ 27"
  using rnd32_eqI [of "- 4" "8 / 100" 10737418] by simp

lemma h_val: "rnd32 (1 / 10) = 13421773 / 2 ^ 27"
  using rnd32_eqI [of "- 4" "1 / 10" 13421773] by simp

lemma m_val: "rnd32 (1 / 100) = 10737418 / 2 ^ 30"
  using rnd32_eqI [of "- 7" "1 / 100" 10737418] by simp

section \<open>Single-precision arithmetic: the operations stay in binary32\<close>

lemma binary32_round32 [simp]: "binary32 (round32 x)"
  by (simp add: round32_def Let_def binary32_def not_le)

lemma binary32_special [simp]: "binary32 PInf" "binary32 MInf" "binary32 NaN" "binary32 (Finite 0)"
  by (simp_all add: binary32_def)

lemma binary32_fneg: "binary32 a \<Longrightarrow> binary32 (fneg a)"
  by (cases a) (simp_all add: binary32_def rnd32_minus)

lemma binary32_fadd: "binary32 (fadd a b)"
  by (cases a; cases b) simp_all

lemma binary32_fsub: "binary32 (fsub a b)"
  unfolding fsub_def by (rule binary32_fadd)

lemma binary32_fmul: "binary32 (fmul a b)"
  by (cases a; cases b) simp_all

lemma binary32_fdiv: "binary32 (fdiv a b)"
  by (cases a; cases b) simp_all

lemma binary32_fsqrt: "binary32 (fsqrt a)"
  by (cases a) simp_all

lemma binary32_flit: "binary32 (flit r)"
  by (simp add: flit_def)

section \<open>Single-precision arithmetic: the literals of the source\<close>

lemma flit_small:
  assumes "\<bar>r\<bar> \<le> 2 ^ 127"
  shows "flit r = Finite (rnd32 r)"
  unfolding flit_def using assms by (rule round32_small)

lemma flit_0 [simp]: "flit 0 = Finite 0"
  by (simp add: flit_small)

lemma flit_1 [simp]: "flit 1 = Finite 1"
  by (simp add: flit_small)

lemma flit_half [simp]: "flit (1 / 2) = Finite (1 / 2)"
  using rnd32_pow2 [of "- 1"] by (simp add: flit_small)

lemma flit_milli: "flit (1 / 1000) = Finite (8589935 / 2 ^ 33)"
  by (simp add: flit_small k_val)

lemma flit_tenth: "flit (1 / 10) = Finite (13421773 / 2 ^ 27)"
  by (simp add: flit_small h_val)

lemma flit_centi: "flit (1 / 100) = Finite (10737418 / 2 ^ 30)"
  by (simp add: flit_small m_val)

lemma kMinGateGain_val: "kMinGateGain = Finite (8589935 / 2 ^ 33)"
  by (simp add: kMinGateGain_def flit_milli)

lemma kComfortNoiseLevel_val: "kComfortNoiseLevel = Finite (8589935 / 2 ^ 33)"
  by (simp add: kComfortNoiseLevel_def flit_milli)

lemma kVadHysteresis_val: "kVadHysteresis = Finite (13421773 / 2 ^ 27)"
  by (simp add: kVadHysteresis_def flit_tenth)

lemma kGainSmoothCoeff_val: "kGainSmoothCoeff = Finite (10737418 / 2 ^ 27)"
proof -
  have "flit (8 / 100) = Finite (rnd32 (8 / 100))" by (rule flit_small) simp
  then show ?thesis unfolding kGainSmoothCoeff_def c_val .
qed

lemma rnd32_480: "rnd32 480 = 480"
  by (rule rnd32_exact [where e = 8 and n = 15728640]) simp_all

lemma round32_480: "round32 480 = Finite 480"
  by (simp add: round32_small rnd32_480)

lemma rnd32_32767: "rnd32 32767 = 32767"
  by (rule rnd32_exact [where e = 14 and n = 16776704]) simp_all

lemma flit_32767: "flit 32767 = Finite 32767"
  by (simp add: flit_small rnd32_32767)

lemma flit_2_31: "flit 2147483648 = Finite 2147483648"
  using rnd32_pow2 [of 31] by (simp add: flit_small)

section \<open>The frame processor: the paths of \<open>processFrame\<close>\<close>

lemma processFrame_uninitialized:
  "m_state s = None \<Longrightarrow> processFrame engine s frame = (s, frame, Finite 0)"
  by (simp add: processFrame_def)

lemma for_loop_foldl: "for_loop n (\<lambda>i s. f s i) a = foldl f a [0..<n]"
  by (induction n) simp_all

lemma computeRms_480:
  "computeRms buf kRNNoiseFrameSize =
     fsqrt (fdiv (foldl (\<lambda>sum i. fadd sum (fmul (buf i) (buf i))) (Finite 0) [0..<480])
                 (Finite 480))"
  by (simp add: computeRms_def kRNNoiseFrameSize_def for_loop_foldl round32_480 Let_def)

lemma processFrame_passthrough:
  assumes "m_state s = Some st" "fle (m_suppressionLevel s) (Finite 0)"
  shows "processFrame engine s frame =
    (s\<lparr>m_metrics := (m_metrics s)\<lparr>inputRms := computeRms frame kRNNoiseFrameSize,
          outputRms := computeRms frame kRNNoiseFrameSize, vadProbability := Finite 0,
          currentGain := Finite 1, framesProcessed := framesProcessed (m_metrics s) + 1\<rparr>\<rparr>,
     frame, Finite 0)"
  using assms by (simp add: processFrame_def Let_def)

lemma processFrame_full:
  assumes "m_state s = Some st" "\<not> fle (m_suppressionLevel s) (Finite 0)"
    and "denoiseBlend engine st (m_suppressionLevel s) frame = (vad, st', blended)"
    and "g = smoothStep (m_smoothGain s) (targetGain vad (m_vadThreshold s))"
    and "addComfortNoise (m_comfortNoiseEnabled s) g (m_noiseState s) (applyGateGain g blended)
           = (out, ns)"
  shows "processFrame engine s frame =
    (s\<lparr>m_state := Some st', m_smoothGain := g, m_noiseState := ns,
        m_metrics := (m_metrics s)\<lparr>inputRms := computeRms frame kRNNoiseFrameSize,
          outputRms := computeRms out kRNNoiseFrameSize, vadProbability := vad,
          currentGain := g, framesProcessed := framesProcessed (m_metrics s) + 1\<rparr>\<rparr>, out, vad)"
  using assms by (simp add: processFrame_def Let_def)

lemma denoiseBlend_vad:
  "fst (denoiseBlend engine st level frame)
     = fst (engine st (for_loop kRNNoiseFrameSize (\<lambda>i f. f(i := fmul (f i) (flit 32767))) frame))"
  by (simp add: denoiseBlend_def Let_def split_beta)

lemma processFrame_full_gain:
  assumes "m_state s = Some st" "\<not> fle (m_suppressionLevel s) (Finite 0)"
  shows "m_smoothGain (fst (processFrame engine s frame)) =
     smoothStep (m_smoothGain s)
       (targetGain (fst (denoiseBlend engine st (m_suppressionLevel s) frame)) (m_vadThreshold s))"
    and "snd (snd (processFrame engine s frame))
       = fst (denoiseBlend engine st (m_suppressionLevel s) frame)"
    and "m_state (fst (processFrame engine s frame)) \<noteq> None"
    and "m_suppressionLevel (fst (processFrame engine s frame)) = m_suppressionLevel s"
    and "m_vadThreshold (fst (processFrame engine s frame)) = m_vadThreshold s"
    and "m_comfortNoiseEnabled (fst (processFrame engine s frame)) = m_comfortNoiseEnabled s"
  using assms by (simp_all add: processFrame_def Let_def split_beta)

lemma flt_imp_not_fle: "flt a b \<Longrightarrow> \<not> fle b a"
  by (cases a; cases b) simp_all

text \<open>
  Claim C8. When the engine handle is null, \<open>processFrame\<close> returns 0 and leaves the frame
  and the whole object, metrics and frame counter included, as they were. The handle is null
  in a newly constructed object, after an \<open>init\<close> whose engine could not be created, and
  after \<open>destroy\<close>. The function has no other outcome: it raises nothing.
\<close>

theorem processFrame_without_engine:
  fixes s :: "'e RNNoiseWrapper"
  shows "(m_state s = None \<longrightarrow> processFrame engine s frame = (s, frame, Finite 0)) \<and>
   m_state (RNNoiseWrapper_new :: 'e RNNoiseWrapper) = None \<and>
   m_state (fst (init s None)) = None \<and> \<not> snd (init s None) \<and>
   m_state (destroy s) = None"
  by (simp add: processFrame_uninitialized RNNoiseWrapper_new_def init_def destroy_def)

theorem processFrame_without_engine_witness:
  "m_state (RNNoiseWrapper_new :: nat RNNoiseWrapper) = None \<and>
   processFrame (\<lambda>st f. (Finite 1, st, f)) (RNNoiseWrapper_new :: nat RNNoiseWrapper)
       (\<lambda>i. Finite (1 / 2))
     = (RNNoiseWrapper_new, \<lambda>i. Finite (1 / 2), Finite 0)"
proof -
  note T = processFrame_without_engine
    [of "RNNoiseWrapper_new :: nat RNNoiseWrapper" "\<lambda>st f. (Finite 1, st, f)"
        "\<lambda>i. Finite (1 / 2)"]
  from T have a: "m_state (RNNoiseWrapper_new :: nat RNNoiseWrapper) = None"
    by (elim conjE)
  from T [THEN conjunct1] a show ?thesis
    by (intro conjI) (assumption, erule (1) mp)
qed

text \<open>
  Claim C3. With an engine and a suppression level \<open>\<le> 0\<close>, \<open>processFrame\<close> returns 0 and
  leaves the frame unchanged; in the object it changes the metrics only: \<open>inputRms\<close> and
  \<open>outputRms\<close> become the root mean square of the 480 samples of the frame, which is the
  single-precision square root of the quotient by 480 of the sum of the squares, added up
  in single precision from sample 0 on; \<open>vadProbability\<close> becomes 0, \<open>currentGain\<close>
  becomes 1 and \<open>framesProcessed\<close> grows by 1.
\<close>

theorem passthrough_when_suppression_off:
  assumes "m_state s = Some st" and "fle (m_suppressionLevel s) (Finite 0)"
  shows "processFrame engine s frame =
    (s\<lparr>m_metrics :=
         \<lparr>inputRms =
            fsqrt (fdiv (foldl (\<lambda>sum i. fadd sum (fmul (frame i) (frame i))) (Finite 0) [0..<480])
                        (Finite 480)),
          outputRms =
            fsqrt (fdiv (foldl (\<lambda>sum i. fadd sum (fmul (frame i) (frame i))) (Finite 0) [0..<480])
                        (Finite 480)),
          vadProbability = Finite 0, currentGain = Finite 1,
          framesProcessed = framesProcessed (m_metrics s) + 1\<rparr>\<rparr>,
     frame, Finite 0)"
  unfolding processFrame_passthrough [OF assms] computeRms_480
  by simp

theorem passthrough_when_suppression_off_witness:
  "let s = (RNNoiseWrapper_new :: nat RNNoiseWrapper)
             \<lparr>m_state := Some 0, m_suppressionLevel := Finite 0\<rparr>;
       r = processFrame (\<lambda>st f. (Finite 1, st, f)) s (\<lambda>i. Finite (1 / 2))
   in m_state s = Some 0 \<and> fle (m_suppressionLevel s) (Finite 0) \<and>
      fst (snd r) = (\<lambda>i. Finite (1 / 2)) \<and> snd (snd r) = Finite 0 \<and>
      vadProbability (m_metrics (fst r)) = Finite 0 \<and>
      currentGain (m_metrics (fst r)) = Finite 1 \<and>
      framesProcessed (m_metrics (fst r)) = 1 \<and>
      inputRms (m_metrics (fst r)) = outputRms (m_metrics (fst r))"
proof -
  let ?s = "(RNNoiseWrapper_new :: nat RNNoiseWrapper)
              \<lparr>m_state := Some 0, m_suppressionLevel := Finite 0\<rparr>"
  have h1: "m_state ?s = Some 0" by simp
  have h2: "fle (m_suppressionLevel ?s) (Finite 0)" by simp
  define R where "R = fsqrt (fdiv (foldl (\<lambda>sum i. fadd sum (fmul (Finite (1 / 2)) (Finite (1 / 2))))
      (Finite 0) [0..<480]) (Finite 480))"
  have T: "processFrame (\<lambda>st f. (Finite 1, st, f)) ?s (\<lambda>i. Finite (1 / 2)) =
    (?s\<lparr>m_metrics := \<lparr>inputRms = R, outputRms = R, vadProbability = Finite 0,
         currentGain = Finite 1, framesProcessed = framesProcessed (m_metrics ?s) + 1\<rparr>\<rparr>,
     \<lambda>i. Finite (1 / 2), Finite 0)"
    unfolding R_def by (rule passthrough_when_suppression_off [OF h1 h2])
  show ?thesis
    unfolding Let_def T by (simp add: RNNoiseWrapper_new_def)
qed

section \<open>The frame processor: passthrough frames\<close>

lemma processFrames_passthrough:
  assumes "m_state s = Some st" and "fle (m_suppressionLevel s) (Finite 0)"
  shows "processFrames engine s frames n =
           s\<lparr>m_metrics := m_metrics (processFrames engine s frames n)\<rparr>
       \<and> (0 < n \<longrightarrow> currentGain (m_metrics (processFrames engine s frames n)) = Finite 1)"
proof (induction n)
  case 0
  then show ?case by simp
next
  case (Suc n)
  let ?s = "processFrames engine s frames n"
  have s: "?s = s\<lparr>m_metrics := m_metrics ?s\<rparr>" using Suc by simp
  have "m_state ?s = Some st" "fle (m_suppressionLevel ?s) (Finite 0)"
    by (subst s, simp add: assms)+
  note P = processFrame_passthrough [OF this, of engine "frames n"]
  show ?case
    unfolding processFrames.simps P fst_conv by (subst (1 2) s) simp
qed

text \<open>
  Claim C10. Any number of frames processed with a suppression level \<open>\<le> 0\<close> leave the
  smoothed gain and the state of the noise generator as they were, while the \<open>currentGain\<close>
  metric reads 1 as soon as one frame has passed. When the level is then set to a positive
  value, the next frame smooths from the gain held before the passthrough frames (in the
  witness this gain is \<open>1 / 2\<close> while the metric reads 1).
\<close>

theorem passthrough_keeps_gate_state:
  assumes "m_state s = Some st" and "fle (m_suppressionLevel s) (Finite 0)"
  shows "let s1 = processFrames engine s frames n;
             r = processFrame engine (setSuppressionLevel s1 level) frame
         in m_smoothGain s1 = m_smoothGain s \<and> m_noiseState s1 = m_noiseState s \<and>
            (0 < n \<longrightarrow> currentGain (m_metrics s1) = Finite 1) \<and>
            (flt (Finite 0) level \<longrightarrow>
               m_smoothGain (fst r) =
                 std_clamp
                   (fadd (m_smoothGain s)
                      (fmul (flit (8 / 100))
                         (fsub (targetGain (snd (snd r)) (m_vadThreshold s)) (m_smoothGain s))))
                   (flit (1 / 1000)) (Finite 1))"
proof -
  let ?s1 = "processFrames engine s frames n"
  let ?s2 = "setSuppressionLevel ?s1 level"
  note P = processFrames_passthrough [OF assms, of engine frames n]
  have s1: "?s1 = s\<lparr>m_metrics := m_metrics ?s1\<rparr>" using P by simp
  have f: "m_smoothGain ?s1 = m_smoothGain s" "m_noiseState ?s1 = m_noiseState s"
    "m_state ?s1 = Some st" "m_vadThreshold ?s1 = m_vadThreshold s"
    by (subst s1, simp add: assms)+
  have g: "m_smoothGain (fst (processFrame engine ?s2 frame)) =
      std_clamp
        (fadd (m_smoothGain s)
           (fmul (flit (8 / 100))
              (fsub (targetGain (snd (snd (processFrame engine ?s2 frame))) (m_vadThreshold s))
                 (m_smoothGain s))))
        (flit (1 / 1000)) (Finite 1)"
    if "flt (Finite 0) level"
  proof -
    have a: "m_state ?s2 = Some st" by (simp add: setSuppressionLevel_def f)
    have "flt (Finite 0) (std_clamp level (Finite 0) (Finite 1))"
      using that by (cases level) (simp_all add: std_clamp_def)
    then have b: "\<not> fle (m_suppressionLevel ?s2) (Finite 0)"
      by (simp add: setSuppressionLevel_def flt_imp_not_fle)
    show ?thesis
      unfolding processFrame_full_gain(1,2) [OF a b]
      by (simp add: setSuppressionLevel_def f smoothStep_def Let_def kGainSmoothCoeff_def
          kMinGateGain_def)
  qed
  show ?thesis unfolding Let_def using f P g by blast
qed

theorem passthrough_keeps_gate_state_witness:
  "let s = (RNNoiseWrapper_new :: nat RNNoiseWrapper)
             \<lparr>m_state := Some 0, m_suppressionLevel := Finite 0, m_smoothGain := Finite (1 / 2)\<rparr>;
       s1 = processFrames (\<lambda>st f. (Finite 1, st, f)) s (\<lambda>n i. Finite (1 / 2)) 3
   in m_state s = Some 0 \<and> fle (m_suppressionLevel s) (Finite 0) \<and>
      m_smoothGain s1 = Finite (1 / 2) \<and> currentGain (m_metrics s1) = Finite 1 \<and>
      m_noiseState s1 = 0x12345678"
proof -
  let ?s = "(RNNoiseWrapper_new :: nat RNNoiseWrapper)
             \<lparr>m_state := Some 0, m_suppressionLevel := Finite 0, m_smoothGain := Finite (1 / 2)\<rparr>"
  have h1: "m_state ?s = Some 0" by simp
  have h2: "fle (m_suppressionLevel ?s) (Finite 0)" by simp
  show ?thesis
    using passthrough_keeps_gate_state [OF h1 h2, of "\<lambda>st f. (Finite 1, st, f)"
        "\<lambda>n i. Finite (1 / 2)" 3 "Finite 1" "\<lambda>i. Finite 0"]
    by (simp add: Let_def RNNoiseWrapper_new_def)
qed

section \<open>The frame processor: the gate at a VAD probability of zero\<close>

lemma round32_0 [simp]: "round32 0 = Finite 0"
  by (simp add: round32_def)

lemma rnd32_kMin: "rnd32 (8589935 / 2 ^ 33) = 8589935 / 2 ^ 33"
  using rnd32_idem [of "1 / 1000"] unfolding k_val .

lemma rnd32_one_minus_kMin: "rnd32 (1 - 8589935 / 2 ^ 33) = 16760439 / 2 ^ 24"
  using rnd32_eqI [of "- 1" "1 - 8589935 / 2 ^ 33" 16760439] by simp

lemma one_minus_kMin: "fsub (Finite 1) kMinGateGain = Finite (16760439 / 2 ^ 24)"
proof -
  have "round32 (1 - 8589935 / 2 ^ 33) = Finite (rnd32 (1 - 8589935 / 2 ^ 33))"
    by (rule round32_small) simp
  then show ?thesis
    unfolding rnd32_one_minus_kMin by (simp add: fsub_def kMinGateGain_val)
qed

lemma gate_floor:
  "fadd kMinGateGain (fmul (Finite 0) (fsub (Finite 1) kMinGateGain)) = kMinGateGain"
proof -
  define k :: real where "k = 8589935 / 2 ^ 33"
  have K: "kMinGateGain = Finite k" unfolding k_def by (rule kMinGateGain_val)
  have "rnd32 k = k" unfolding k_def by (rule rnd32_kMin)
  moreover have "round32 k = Finite (rnd32 k)"
    by (rule round32_small) (simp add: k_def)
  ultimately have "round32 k = Finite k" by simp
  then show ?thesis
    unfolding one_minus_kMin unfolding K by simp
qed

lemma round32_nonneg:
  assumes "0 \<le> y"
  shows "round32 y = PInf \<or> (\<exists>r. round32 y = Finite r \<and> 0 \<le> r)"
  using assms rnd32_nonneg [of y] by (cases "y = 0") (auto simp add: round32_def Let_def)

lemma fdiv_zero: "b \<noteq> NaN \<Longrightarrow> b \<noteq> Finite 0 \<Longrightarrow> fdiv (Finite 0) b = Finite 0"
  by (cases b) simp_all

lemma std_max_same: "std_max a a = a"
  by (simp add: std_max_def)

lemma target_floor_aux:
  assumes "D = PInf \<or> (\<exists>r. D = Finite r \<and> 0 \<le> r)"
  shows "(if flt (Finite 0) D then
        (let ratio = fdiv (Finite 0) (std_max D (flit (1 / 100)));
             targetGain = fadd kMinGateGain (fmul ratio (fsub (Finite 1) kMinGateGain))
         in std_max targetGain kMinGateGain)
      else
        (let ratio = fdiv (fsub (Finite 0) D) kVadHysteresis
         in fadd kMinGateGain (fmul ratio (fsub (Finite 1) kMinGateGain)))) = kMinGateGain"
proof -
  from assms consider "D = PInf" | r where "D = Finite r" "0 < r" | "D = Finite 0"
    by (auto simp add: less_le)
  then show ?thesis
  proof cases
    case 1
    have "std_max PInf (flit (1 / 100)) = PInf" by (simp add: std_max_def flit_centi)
    then show ?thesis unfolding 1 by (simp add: gate_floor std_max_same)
  next
    case 2
    have "std_max (Finite r) (flit (1 / 100)) \<noteq> NaN"
      "std_max (Finite r) (flit (1 / 100)) \<noteq> Finite 0"
      using 2(2) by (simp_all add: std_max_def flit_centi)
    then have "fdiv (Finite 0) (std_max (Finite r) (flit (1 / 100))) = Finite 0"
      by (rule fdiv_zero)
    then show ?thesis unfolding 2(1) using 2(2) by (simp add: gate_floor std_max_same)
  next
    case 3
    have "fdiv (fsub (Finite 0) (Finite 0)) kVadHysteresis = Finite 0"
      by (simp add: fsub_def kVadHysteresis_val)
    then show ?thesis unfolding 3 by (simp add: gate_floor)
  qed
qed

lemma targetGain_zero_vad:
  assumes "fle kVadHysteresis T"
  shows "targetGain (Finite 0) T = kMinGateGain"
proof -
  have a: "\<not> fle T (Finite 0)"
    using assms by (cases T) (simp_all add: kVadHysteresis_val)
  have "fsub T kVadHysteresis = PInf \<or> (\<exists>r. fsub T kVadHysteresis = Finite r \<and> 0 \<le> r)"
  proof (cases T)
    case (Finite t)
    then have "0 \<le> t - 13421773 / 2 ^ 27" using assms by (simp add: kVadHysteresis_val)
    from round32_nonneg [OF this] show ?thesis
      unfolding Finite by (simp add: fsub_def kVadHysteresis_val)
  qed (use assms in \<open>simp_all add: fsub_def kVadHysteresis_val\<close>)
  note D = target_floor_aux [OF this]
  have "targetGain (Finite 0) T =
      (if flt (Finite 0) (fsub T kVadHysteresis) then
        (let ratio = fdiv (Finite 0) (std_max (fsub T kVadHysteresis) (flit (1 / 100)));
             targetGain = fadd kMinGateGain (fmul ratio (fsub (Finite 1) kMinGateGain))
         in std_max targetGain kMinGateGain)
      else
        (let ratio = fdiv (fsub (Finite 0) (fsub T kVadHysteresis)) kVadHysteresis
         in fadd kMinGateGain (fmul ratio (fsub (Finite 1) kMinGateGain))))"
    unfolding targetGain_def flit_1 using a by (simp only: if_False)
  then show ?thesis by (simp only: D)
qed

lemma gate_step_le:
  assumes "rnd32 g = g" "k \<le> g" "0 \<le> c"
  shows "rnd32 (g + rnd32 (c * rnd32 (k - g))) \<le> g"
proof -
  have "rnd32 (k - g) \<le> 0" using assms(2) by (intro rnd32_nonpos) simp
  then have "c * rnd32 (k - g) \<le> 0" using assms(3) by (simp add: mult_le_0_iff)
  then have "rnd32 (c * rnd32 (k - g)) \<le> 0" by (rule rnd32_nonpos)
  then have "rnd32 (g + rnd32 (c * rnd32 (k - g))) \<le> rnd32 g" by (intro rnd32_mono) simp
  then show ?thesis unfolding assms(1) .
qed

lemma smoothStep_floor:
  assumes "rnd32 g = g" "8589935 / 2 ^ 33 \<le> g" "g \<le> 1"
  shows "smoothStep (Finite g) kMinGateGain =
    Finite (max (8589935 / 2 ^ 33)
      (rnd32 (g + rnd32 (10737418 / 2 ^ 27 * rnd32 (8589935 / 2 ^ 33 - g)))))"
proof -
  define k :: real where "k = 8589935 / 2 ^ 33"
  define c :: real where "c = 10737418 / 2 ^ 27"
  define d where "d = rnd32 (k - g)"
  define p where "p = rnd32 (c * d)"
  define v where "v = rnd32 (g + p)"
  have K: "kMinGateGain = Finite k" unfolding k_def by (rule kMinGateGain_val)
  have C: "kGainSmoothCoeff = Finite c" unfolding c_def by (rule kGainSmoothCoeff_val)
  have k: "0 \<le> k" "k \<le> g" using assms(2) by (simp_all add: k_def)
  have c: "0 \<le> c" "c \<le> 1" by (simp_all add: c_def)
  have "\<bar>k - g\<bar> \<le> 1" using k assms(3) by simp
  then have d: "\<bar>d\<bar> \<le> 1" unfolding d_def by (rule rnd32_abs_le) simp
  have "\<bar>c * d\<bar> \<le> 1 * 1"
    unfolding abs_mult using c d by (intro mult_mono) simp_all
  then have cd: "\<bar>c * d\<bar> \<le> 1" by simp
  then have p: "\<bar>p\<bar> \<le> 1" unfolding p_def by (rule rnd32_abs_le) simp
  have v: "v \<le> g"
    unfolding v_def p_def d_def using assms(1) k(2) c(1) by (rule gate_step_le)
  have "\<bar>g + p\<bar> \<le> 2 powi 1" using p k assms(3) by simp
  moreover have "rnd32 (2 powi 1) = 2 powi 1" by (rule rnd32_pow2) simp
  ultimately have "\<bar>v\<bar> \<le> 2 powi 1" unfolding v_def by (rule rnd32_abs_le)
  then have v2: "\<bar>rnd32 (g + p)\<bar> < 2 ^ 128" unfolding v_def by simp
  have r1: "round32 (k - g) = Finite d"
    unfolding d_def using k assms(3) by (intro round32_small) simp
  have r2: "round32 (c * d) = Finite p"
    unfolding p_def using cd by (intro round32_small) simp
  have r3: "round32 (g + p) = Finite v"
    unfolding v_def using v2 by (rule round32_Finite)
  have "smoothStep (Finite g) kMinGateGain = std_clamp (Finite v) (Finite k) (Finite 1)"
    unfolding smoothStep_def K C by (simp add: fsub_def r1 r2 r3 Let_def)
  also have "\<dots> = Finite (max k v)"
    using v assms(3) by (simp add: std_clamp_def max_def)
  finally show ?thesis unfolding v_def p_def d_def k_def c_def .
qed

lemma rnd32_below:
  assumes "2 powi (- 126) \<le> \<bar>x\<bar>" "x \<le> 0"
  shows "rnd32 x \<le> x - x / 16777216" "x + x / 16777216 \<le> rnd32 x"
proof -
  have "\<bar>rnd32 x - x\<bar> \<le> \<bar>x\<bar> / 16777216"
    using rnd32_rel_error [OF assms(1)] by simp
  then show "rnd32 x \<le> x - x / 16777216" "x + x / 16777216 \<le> rnd32 x"
    using assms(2) by linarith+
qed

lemma rnd32_above:
  assumes "2 powi (- 126) \<le> \<bar>x\<bar>" "0 \<le> x"
  shows "rnd32 x \<le> x + x / 16777216" "x - x / 16777216 \<le> rnd32 x"
proof -
  have "\<bar>rnd32 x - x\<bar> \<le> \<bar>x\<bar> / 16777216"
    using rnd32_rel_error [OF assms(1)] by simp
  then show "rnd32 x \<le> x + x / 16777216" "x - x / 16777216 \<le> rnd32 x"
    using assms(2) by linarith+
qed

lemma gate_step_decrease:
  fixes g :: real
  assumes "8589943 / 2 ^ 33 \<le> g" "g \<le> 1"
  shows "rnd32 (g + rnd32 (10737418 / 2 ^ 27 * rnd32 (8589935 / 2 ^ 33 - g))) \<le> g - 1 / 2 ^ 37"
proof -
  define x1 where "x1 = 8589935 / 8589934592 - g"
  define d where "d = rnd32 x1"
  define x2 where "x2 = 5368709 / 67108864 * d"
  define p where "p = rnd32 x2"
  define x3 where "x3 = g + p"
  define v where "v = rnd32 x3"
  have g: "8589943 / 8589934592 \<le> g" using assms(1) by simp
  have x1: "x1 \<le> - (8 / 8589934592)" "- 1 \<le> x1" using g assms(2) by (simp_all add: x1_def)
  have "1 / 2 ^ 126 \<le> \<bar>x1\<bar>" using x1(1) by simp
  then have "2 powi (- 126) \<le> \<bar>x1\<bar>" by (simp add: power_int_minus_divide)
  from rnd32_below [OF this] x1(1)
  have d: "d \<le> x1 - x1 / 16777216" "x1 + x1 / 16777216 \<le> d"
    unfolding d_def by simp_all
  have dneg: "d \<le> - (7 / 8589934592)" using d(1) x1(1) by argo
  have x2: "x2 \<le> - (1 / 1099511627776)" unfolding x2_def using dneg by argo
  have "1 / 2 ^ 126 \<le> \<bar>x2\<bar>" using x2 by simp
  then have "2 powi (- 126) \<le> \<bar>x2\<bar>" by (simp add: power_int_minus_divide)
  from rnd32_below [OF this] x2
  have p: "p \<le> x2 - x2 / 16777216" "x2 + x2 / 16777216 \<le> p"
    unfolding p_def by simp_all
  have x3: "1 / 1024 \<le> x3"
    using p(2) d(2) x1(2) g unfolding x3_def x2_def x1_def by argo
  have "1 / 2 ^ 126 \<le> \<bar>x3\<bar>" using x3 by simp
  then have "2 powi (- 126) \<le> \<bar>x3\<bar>" by (simp add: power_int_minus_divide)
  from rnd32_above [OF this] x3
  have v: "v \<le> x3 + x3 / 16777216" unfolding v_def by simp
  have "v \<le> g - 1 / 137438953472"
    using v p(1) d(1) g unfolding x3_def x2_def x1_def by argo
  then show ?thesis unfolding v_def x3_def p_def x2_def d_def x1_def by simp
qed

lemma gate_step_seven:
  "rnd32 (8589942 / 2 ^ 33 + rnd32 (10737418 / 2 ^ 27 * rnd32 (8589935 / 2 ^ 33 - 8589942 / 2 ^ 33)))
     = 8589941 / 2 ^ 33"
proof -
  define k :: real where "k = 8589935 / 2 ^ 33"
  define c :: real where "c = 10737418 / 2 ^ 27"
  define g :: real where "g = 8589942 / 2 ^ 33"
  define d :: real where "d = - 7 / 2 ^ 33"
  define p :: real where "p = - 9395241 / 2 ^ 57"
  have a: "rnd32 (k - g) = d"
    unfolding k_def g_def d_def
    using rnd32_eqI [of "- 31" "8589935 / 2 ^ 33 - 8589942 / 2 ^ 33" "- 14680064"] by simp
  have b: "rnd32 (c * d) = p"
    unfolding c_def d_def p_def
    using rnd32_eqI [of "- 34" "10737418 / 2 ^ 27 * (- 7 / 2 ^ 33)" "- 9395241"] by simp
  have e: "rnd32 (g + p) = 8589941 / 2 ^ 33"
    unfolding g_def p_def
    using rnd32_eqI [of "- 10" "8589942 / 2 ^ 33 + - 9395241 / 2 ^ 57" 8589941] by simp
  have "rnd32 (g + rnd32 (c * rnd32 (k - g))) = 8589941 / 2 ^ 33"
    unfolding a b e ..
  then show ?thesis unfolding k_def c_def g_def .
qed

lemma gate_step_six:
  "rnd32 (8589941 / 2 ^ 33 + rnd32 (10737418 / 2 ^ 27 * rnd32 (8589935 / 2 ^ 33 - 8589941 / 2 ^ 33)))
     = 8589941 / 2 ^ 33"
proof -
  define k :: real where "k = 8589935 / 2 ^ 33"
  define c :: real where "c = 10737418 / 2 ^ 27"
  define g :: real where "g = 8589941 / 2 ^ 33"
  define d :: real where "d = - 6 / 2 ^ 33"
  define p :: real where "p = - 16106127 / 2 ^ 58"
  have a: "rnd32 (k - g) = d"
    unfolding k_def g_def d_def
    using rnd32_eqI [of "- 31" "8589935 / 2 ^ 33 - 8589941 / 2 ^ 33" "- 12582912"] by simp
  have b: "rnd32 (c * d) = p"
    unfolding c_def d_def p_def
    using rnd32_eqI [of "- 35" "10737418 / 2 ^ 27 * (- 6 / 2 ^ 33)" "- 16106127"] by simp
  have e: "rnd32 (g + p) = 8589941 / 2 ^ 33"
    unfolding g_def p_def
    using rnd32_eqI [of "- 10" "8589941 / 2 ^ 33 + - 16106127 / 2 ^ 58" 8589941] by simp
  have "rnd32 (g + rnd32 (c * rnd32 (k - g))) = 8589941 / 2 ^ 33"
    unfolding a b e ..
  then show ?thesis unfolding k_def c_def g_def .
qed

lemma binary32_between:
  assumes "rnd32 g = g" "8589941 / 2 ^ 33 < g" "g < 8589943 / 2 ^ 33"
  shows "g = 8589942 / 2 ^ 33"
proof -
  have "expo32 g = - 10"
    using assms(2,3) by (intro expo32_eqI) simp_all
  then have u: "ulp32 g = 2 powi (- 33)" by (simp add: ulp32_def)
  define n where "n = round_even (g / ulp32 g)"
  have "g = of_int n * ulp32 g"
    using assms(1) rnd32_alt [of g] unfolding n_def by simp
  then have g: "g = of_int n / 2 ^ 33"
    unfolding u by (simp add: power_int_minus_divide)
  have "real_of_int 8589941 < of_int n" "real_of_int n < of_int 8589943"
    using assms(2,3) unfolding g by simp_all
  then have "8589941 < n" "n < 8589943" unfolding of_int_less_iff by simp_all
  then have "n = 8589942" by simp
  then show ?thesis unfolding g by simp
qed

lemma gate_step_props:
  fixes g :: real
  assumes "rnd32 g = g" "8589935 / 2 ^ 33 \<le> g" "g \<le> 1"
    and S_def: "S = max (8589935 / 2 ^ 33)
      (rnd32 (g + rnd32 (10737418 / 2 ^ 27 * rnd32 (8589935 / 2 ^ 33 - g))))"
  shows "8589935 / 2 ^ 33 \<le> S" "S \<le> g" "rnd32 S = S"
    and "8589941 / 2 ^ 33 < g \<Longrightarrow> S < g"
    and "8589943 / 2 ^ 33 \<le> g \<Longrightarrow> S \<le> g - 1 / 2 ^ 37"
    and "g < 8589943 / 2 ^ 33 \<Longrightarrow> S \<le> 8589941 / 2 ^ 33"
proof -
  define k :: real where "k = 8589935 / 2 ^ 33"
  define v where "v = rnd32 (g + rnd32 (10737418 / 2 ^ 27 * rnd32 (k - g)))"
  have S: "S = max k v" unfolding S_def v_def k_def ..
  have kg: "k \<le> g" using assms(2) unfolding k_def .
  have v: "v \<le> g" unfolding v_def using assms(1) kg by (rule gate_step_le) simp
  show "8589935 / 2 ^ 33 \<le> S" unfolding S k_def by simp
  show "S \<le> g" unfolding S using v kg by simp
  have "rnd32 k = k" unfolding k_def by (rule rnd32_kMin)
  moreover have "rnd32 v = v" unfolding v_def by (rule rnd32_idem)
  ultimately show "rnd32 S = S" unfolding S by (simp add: max_def)
  have dec: "S \<le> g - 1 / 2 ^ 37" if "8589943 / 2 ^ 33 \<le> g"
  proof -
    have "v \<le> g - 1 / 2 ^ 37"
      unfolding v_def k_def using that assms(3) by (rule gate_step_decrease)
    moreover have "k \<le> g - 1 / 2 ^ 37" using that unfolding k_def by simp
    ultimately show ?thesis unfolding S by simp
  qed
  show "8589943 / 2 ^ 33 \<le> g \<Longrightarrow> S \<le> g - 1 / 2 ^ 37" by (rule dec)
  have seven: "S = 8589941 / 2 ^ 33" if "g = 8589942 / 2 ^ 33"
    unfolding S v_def k_def that gate_step_seven by simp
  show "S < g" if "8589941 / 2 ^ 33 < g"
  proof (cases "8589943 / 2 ^ 33 \<le> g")
    case True
    from dec [OF this] show ?thesis by simp
  next
    case False
    then have "g < 8589943 / 2 ^ 33" by simp
    with assms(1) that have g: "g = 8589942 / 2 ^ 33" by (rule binary32_between)
    show ?thesis unfolding seven [OF g] g by simp
  qed
  show "S \<le> 8589941 / 2 ^ 33" if "g < 8589943 / 2 ^ 33"
  proof (cases "8589941 / 2 ^ 33 < g")
    case True
    with assms(1) have g: "g = 8589942 / 2 ^ 33" using that by (rule binary32_between)
    show ?thesis unfolding seven [OF g] by simp
  next
    case False
    then show ?thesis using \<open>S \<le> g\<close> by simp
  qed
qed

lemma processFrames_full_fields:
  assumes "m_state s = Some st" and "\<not> fle (m_suppressionLevel s) (Finite 0)"
  shows "m_state (processFrames engine s frames n) \<noteq> None \<and>
    m_suppressionLevel (processFrames engine s frames n) = m_suppressionLevel s \<and>
    m_vadThreshold (processFrames engine s frames n) = m_vadThreshold s"
proof (induction n)
  case 0
  then show ?case using assms by simp
next
  case (Suc n)
  let ?s = "processFrames engine s frames n"
  from Suc obtain st' where st': "m_state ?s = Some st'" by auto
  have l: "\<not> fle (m_suppressionLevel ?s) (Finite 0)" using Suc assms by simp
  show ?case
    using processFrame_full_gain(3,4,5) [OF st' l, of engine "frames n"] Suc by simp
qed

lemma processFrames_gain_step:
  assumes "m_state s = Some st" and "\<not> fle (m_suppressionLevel s) (Finite 0)"
  shows "m_smoothGain (processFrames engine s frames (Suc n)) =
    smoothStep (m_smoothGain (processFrames engine s frames n))
      (targetGain (snd (snd (processFrame engine (processFrames engine s frames n) (frames n))))
         (m_vadThreshold s))"
proof -
  let ?s = "processFrames engine s frames n"
  note F = processFrames_full_fields [OF assms, of engine frames n]
  from F obtain st' where st': "m_state ?s = Some st'" by auto
  have l: "\<not> fle (m_suppressionLevel ?s) (Finite 0)" using F assms by simp
  show ?thesis
    using processFrame_full_gain(1,2) [OF st' l, of engine "frames n"] F by simp
qed

lemma processFrame_returns_zero:
  assumes "\<forall>st f. fst (engine st f) = Finite 0"
  shows "snd (snd (processFrame engine s frame)) = Finite 0"
proof (cases "m_state s")
  case None
  then show ?thesis by (simp add: processFrame_uninitialized)
next
  case (Some st)
  show ?thesis
  proof (cases "fle (m_suppressionLevel s) (Finite 0)")
    case True
    then show ?thesis by (simp add: processFrame_passthrough [OF Some])
  next
    case False
    from processFrame_full_gain(2) [OF Some this] show ?thesis
      by (simp add: denoiseBlend_vad assms)
  qed
qed

lemma smoothStep_eval:
  assumes "rnd32 (t - g) = d" "rnd32 (10737418 / 2 ^ 27 * d) = p" "rnd32 (g + p) = v"
    and "\<bar>t - g\<bar> \<le> 2" "\<bar>d\<bar> \<le> 2" "\<bar>g + p\<bar> \<le> 2"
    and "8589935 / 2 ^ 33 \<le> v" "v \<le> 1"
  shows "smoothStep (Finite g) (Finite t) = Finite v"
proof -
  define c :: real where "c = 10737418 / 2 ^ 27"
  define k :: real where "k = 8589935 / 2 ^ 33"
  have K: "kMinGateGain = Finite k" unfolding k_def by (rule kMinGateGain_val)
  have C: "kGainSmoothCoeff = Finite c" unfolding c_def by (rule kGainSmoothCoeff_val)
  have "\<bar>c * d\<bar> \<le> 1 * 2"
    unfolding abs_mult using assms(5) by (intro mult_mono) (simp_all add: c_def)
  then have cd: "\<bar>c * d\<bar> \<le> 2 ^ 127" by simp
  have r1: "round32 (t - g) = Finite d"
    using round32_small [of "t - g"] assms(1,4) by simp
  have r2: "round32 (c * d) = Finite p"
    using round32_small [OF cd] assms(2) unfolding c_def by simp
  have r3: "round32 (g + p) = Finite v"
    using round32_small [of "g + p"] assms(3,6) by simp
  have "smoothStep (Finite g) (Finite t) = std_clamp (Finite v) (Finite k) (Finite 1)"
    unfolding smoothStep_def K C by (simp add: fsub_def r1 r2 r3 Let_def)
  also have "\<dots> = Finite v"
    using assms(7,8) by (simp add: std_clamp_def k_def)
  finally show ?thesis .
qed

lemma smoothStep_from_one: "smoothStep (Finite 1) kMinGateGain = Finite (15436381 / 2 ^ 24)"
proof -
  have a: "rnd32 (8589935 / 2 ^ 33 - 1) = - 16760439 / 2 ^ 24"
    using rnd32_eqI [of "- 1" "8589935 / 2 ^ 33 - 1" "- 16760439"] by simp
  have b: "rnd32 (10737418 / 2 ^ 27 * (- 16760439 / 2 ^ 24)) = - 10726681 / 2 ^ 27"
    using rnd32_eqI [of "- 4" "10737418 / 2 ^ 27 * (- 16760439 / 2 ^ 24)" "- 10726681"] by simp
  have c: "rnd32 (1 + - 10726681 / 2 ^ 27) = 15436381 / 2 ^ 24"
    using rnd32_eqI [of "- 1" "1 + - 10726681 / 2 ^ 27" 15436381] by simp
  show ?thesis
    unfolding kMinGateGain_val by (rule smoothStep_eval [OF a b c]) simp_all
qed

lemma smoothStep_to_one:
  "smoothStep (Finite (15436381 / 2 ^ 24)) (Finite 1) = Finite (15543648 / 2 ^ 24)"
proof -
  have a: "rnd32 (1 - 15436381 / 2 ^ 24) = 10726680 / 2 ^ 27"
    using rnd32_eqI [of "- 4" "1 - 15436381 / 2 ^ 24" 10726680] by simp
  have b: "rnd32 (10737418 / 2 ^ 27 * (10726680 / 2 ^ 27)) = 13730150 / 2 ^ 31"
    using rnd32_eqI [of "- 8" "10737418 / 2 ^ 27 * (10726680 / 2 ^ 27)" 13730150] by simp
  have c: "rnd32 (15436381 / 2 ^ 24 + 13730150 / 2 ^ 31) = 15543648 / 2 ^ 24"
    using rnd32_eqI [of "- 1" "15436381 / 2 ^ 24 + 13730150 / 2 ^ 31" 15543648] by simp
  show ?thesis
    by (rule smoothStep_eval [OF a b c]) simp_all
qed

lemma binary32_stall: "binary32 (Finite (8589941 / 2 ^ 33))"
  using rnd32_eqI [of "- 10" "8589941 / 2 ^ 33" 8589941] by (simp add: binary32_def)

lemma smoothStep_stall:
  "smoothStep (Finite (8589941 / 2 ^ 33)) kMinGateGain = Finite (8589941 / 2 ^ 33)"
proof -
  have r: "rnd32 (8589941 / 2 ^ 33) = 8589941 / 2 ^ 33"
    using binary32_stall by (simp add: binary32_def)
  have "smoothStep (Finite (8589941 / 2 ^ 33)) kMinGateGain =
    Finite (max (8589935 / 2 ^ 33)
      (rnd32 (8589941 / 2 ^ 33
         + rnd32 (10737418 / 2 ^ 27 * rnd32 (8589935 / 2 ^ 33 - 8589941 / 2 ^ 33)))))"
    using r by (rule smoothStep_floor) simp_all
  then show ?thesis unfolding gate_step_six by simp
qed

text \<open>
  Claim C6, as amended. The object has an engine, suppression level 1, a VAD threshold of at
  least \<open>0.1f\<close> and a smoothed gain in \<open>[0.001f, 1]\<close>, and every processed frame yields the
  VAD probability 0. Then the smoothed gain after each frame is at most the gain before it
  and never below \<open>0.001f\<close>; it is strictly less while the gain exceeds \<open>0.001f\<close> by more
  than 6 units in the last place, which is \<open>6 / 2 ^ 33\<close>; and from some frame on it is
  within these 6 units of \<open>0.001f\<close>. Here \<open>0.001f = 8589935 / 2 ^ 33\<close> and
  \<open>0.1f = 13421773 / 2 ^ 27\<close> are the constants \<open>kMinGateGain\<close> and \<open>kVadHysteresis\<close>.
\<close>

theorem gate_closes_at_zero_vad:
  assumes "m_state s = Some st" and "m_suppressionLevel s = Finite 1"
    and "fle kVadHysteresis (m_vadThreshold s)"
    and "binary32 (m_smoothGain s)"
    and "fle kMinGateGain (m_smoothGain s)" and "fle (m_smoothGain s) (Finite 1)"
    and "\<forall>k. snd (snd (processFrame engine (processFrames engine s frames k) (frames k)))
           = Finite 0"
  shows "let g = (\<lambda>n. m_smoothGain (processFrames engine s frames n))
         in kMinGateGain = Finite (8589935 / 2 ^ 33) \<and>
            kVadHysteresis = Finite (13421773 / 2 ^ 27) \<and>
            (\<forall>n. fle (g (Suc n)) (g n) \<and> fle kMinGateGain (g n) \<and>
                 (flt (Finite (8589941 / 2 ^ 33)) (g n) \<longrightarrow> flt (g (Suc n)) (g n))) \<and>
            (\<exists>N. \<forall>n\<ge>N. fle (g n) (Finite (8589941 / 2 ^ 33)))"
proof -
  define k :: real where "k = 8589935 / 2 ^ 33"
  define lim :: real where "lim = 8589941 / 2 ^ 33"
  define S where "S = (\<lambda>g. max k (rnd32 (g + rnd32 (10737418 / 2 ^ 27 * rnd32 (k - g)))))"
  define g where "g = (\<lambda>n. m_smoothGain (processFrames engine s frames n))"
  define G where "G = (\<lambda>n. case g n of Finite x \<Rightarrow> x | _ \<Rightarrow> 0)"
  have K: "kMinGateGain = Finite k" unfolding k_def by (rule kMinGateGain_val)
  have l: "\<not> fle (m_suppressionLevel s) (Finite 0)" using assms(2) by simp
  have step: "g (Suc n) = smoothStep (g n) kMinGateGain" for n
    unfolding g_def processFrames_gain_step [OF assms(1) l]
    using assms(7) targetGain_zero_vad [OF assms(3)] by simp
  have props: "k \<le> S x" "S x \<le> x" "rnd32 (S x) = S x"
    "lim < x \<Longrightarrow> S x < x"
    "8589943 / 2 ^ 33 \<le> x \<Longrightarrow> S x \<le> x - 1 / 2 ^ 37"
    "x < 8589943 / 2 ^ 33 \<Longrightarrow> S x \<le> lim"
    if "rnd32 x = x" "k \<le> x" "x \<le> 1" for x
    using gate_step_props [OF that(1) that(2) [unfolded k_def] that(3) refl]
    unfolding S_def k_def lim_def by blast+
  have inv: "g n = Finite (G n) \<and> k \<le> G n \<and> G n \<le> 1 \<and> rnd32 (G n) = G n" for n
  proof (induction n)
    case 0
    obtain g0 where g0: "m_smoothGain s = Finite g0"
      using assms(5,6) by (cases "m_smoothGain s") (simp_all add: K)
    have "g 0 = Finite g0" unfolding g_def using g0 by simp
    then show ?case
      using assms(4,5,6) unfolding G_def g0 K by (simp add: binary32_def)
  next
    case (Suc n)
    have "g (Suc n) = Finite (S (G n))"
      unfolding step S_def k_def using Suc
      by (simp add: smoothStep_floor [unfolded k_def [symmetric]] k_def)
    moreover from this have "G (Suc n) = S (G n)" by (simp add: G_def)
    ultimately show ?case using props(1,2,3) [of "G n"] Suc by simp
  qed
  have rec: "G (Suc n) = S (G n)" for n
  proof -
    have "g (Suc n) = Finite (S (G n))"
      unfolding step S_def k_def using inv [of n]
      by (simp add: smoothStep_floor k_def)
    with inv [of "Suc n"] show ?thesis by simp
  qed
  note P = props [OF inv [THEN conjunct2, THEN conjunct2, THEN conjunct2]
      inv [THEN conjunct2, THEN conjunct1] inv [THEN conjunct2, THEN conjunct2, THEN conjunct1]]
  have mono: "G (Suc n) \<le> G n" for n unfolding rec by (rule P(2))
  have anti: "G n \<le> G m" if "m \<le> n" for m n
    using that by (rule lift_Suc_antimono_le [of G, OF mono])
  have strict: "G (Suc n) < G n" if "lim < G n" for n unfolding rec using that by (rule P(4))
  have reach: "\<exists>N. G N < 8589943 / 2 ^ 33"
  proof (rule ccontr)
    assume "\<not> ?thesis"
    then have big: "8589943 / 2 ^ 33 \<le> G n" for n by (simp add: not_less)
    have "G n \<le> G 0 - real n / 2 ^ 37" for n
    proof (induction n)
      case 0
      then show ?case by simp
    next
      case (Suc n)
      have "G (Suc n) \<le> G n - 1 / 2 ^ 37" unfolding rec using big [of n] by (rule P(5))
      with Suc show ?case by (simp add: field_simps)
    qed
    from this [of "2 ^ 37"] have "G (2 ^ 37) \<le> G 0 - 1" by simp
    moreover have "G 0 \<le> 1" "k \<le> G (2 ^ 37)" using inv by blast+
    ultimately show False unfolding k_def by simp
  qed
  then obtain N where N: "G N < 8589943 / 2 ^ 33" ..
  have "G (Suc N) \<le> lim" unfolding rec using N by (rule P(6))
  then have fin: "G n \<le> lim" if "Suc N \<le> n" for n
    using anti [OF that] by simp
  have a: "fle (g (Suc n)) (g n) \<and> fle kMinGateGain (g n) \<and>
      (flt (Finite lim) (g n) \<longrightarrow> flt (g (Suc n)) (g n))" for n
    using inv [of n] inv [of "Suc n"] mono [of n] strict [of n] unfolding K by simp
  have b: "\<exists>N. \<forall>n\<ge>N. fle (g n) (Finite lim)"
    using fin inv by (intro exI [of _ "Suc N"]) simp
  show ?thesis
    unfolding Let_def g_def [symmetric]
    using a b kMinGateGain_val kVadHysteresis_val unfolding lim_def by blast
qed

theorem gate_closes_at_zero_vad_witness:
  "let s = fst (init (RNNoiseWrapper_new :: nat RNNoiseWrapper) (Some 0));
       g = (\<lambda>n. m_smoothGain (processFrames (\<lambda>st f. (Finite 0, st, f)) s
                                  (\<lambda>n i. Finite (1 / 2)) n))
   in m_state s = Some 0 \<and> m_suppressionLevel s = Finite 1 \<and>
      fle kVadHysteresis (m_vadThreshold s) \<and> binary32 (m_smoothGain s) \<and>
      m_smoothGain s = Finite 1 \<and> flt (g (Suc 0)) (g 0) \<and> fle kMinGateGain (g 7) \<and>
      (\<exists>N. \<forall>n\<ge>N. fle (g n) (Finite (8589941 / 2 ^ 33)))"
proof -
  let ?s = "fst (init (RNNoiseWrapper_new :: nat RNNoiseWrapper) (Some 0))"
  let ?e = "\<lambda>(st::nat) (f::nat \<Rightarrow> float). (Finite 0, st, f)"
  let ?g = "\<lambda>n. m_smoothGain (processFrames ?e ?s (\<lambda>n i. Finite (1 / 2)) n)"
  have h: "m_state ?s = Some 0" "m_suppressionLevel ?s = Finite 1"
    "fle kVadHysteresis (m_vadThreshold ?s)" "binary32 (m_smoothGain ?s)"
    "fle kMinGateGain (m_smoothGain ?s)" "fle (m_smoothGain ?s) (Finite 1)"
    by (simp_all add: init_def RNNoiseWrapper_new_def Let_def kVadHysteresis_val
        kMinGateGain_val binary32_def)
  have h4: "m_smoothGain ?s = Finite 1" by (simp add: init_def Let_def)
  have z: "\<forall>k. snd (snd (processFrame ?e (processFrames ?e ?s (\<lambda>n i. Finite (1 / 2)) k)
      (\<lambda>i. Finite (1 / 2)))) = Finite 0"
    by (intro allI processFrame_returns_zero) simp
  note G = gate_closes_at_zero_vad [OF h z, unfolded Let_def]
  note G3 = G [THEN conjunct2, THEN conjunct2]
  have "flt (Finite (8589941 / 2 ^ 33)) (?g 0)" by (simp add: h4)
  with G3 [THEN conjunct1, THEN spec [where x = 0]] have a: "flt (?g (Suc 0)) (?g 0)"
    by blast
  have b: "fle kMinGateGain (?g 7)"
    using G3 [THEN conjunct1, THEN spec [where x = 7]] by blast
  show ?thesis
    unfolding Let_def using h(1,2,3,4) h4 a b G3 [THEN conjunct2] by blast
qed

text \<open>
  Claim C6, as stated, asks for this with every threshold and for a strict decrease down to
  0.001. With the threshold 0 a VAD probability of 0 reaches the threshold and the target
  gain is 1: after \<open>init\<close>, one frame at the default threshold and \<open>setVadThreshold(0)\<close>, the
  gain is \<open>15436381 / 2 ^ 24\<close>, about 0.92008, and the next frame with VAD probability 0
  raises it to \<open>15543648 / 2 ^ 24\<close>, about 0.92647. With the default threshold and the gain
  \<open>8589941 / 2 ^ 33\<close>, which is 6 units in the last place above \<open>0.001f\<close>, a frame with VAD
  probability 0 leaves the gain where it is: the single-precision sum
  \<open>gain + 0.08f * (0.001f - gain)\<close> rounds back to the gain.
\<close>

theorem gate_stays_open_or_stalls:
  "let e = (\<lambda>(st::nat) (f::nat \<Rightarrow> float). (Finite 0, st, f));
       frame = (\<lambda>i. Finite 0);
       s = run e RNNoiseWrapper_new
             [Init (Some 0), ProcessFrame frame, SetVadThreshold (Finite 0)];
       r = processFrame e s frame;
       t = (fst (init RNNoiseWrapper_new (Some 0)))\<lparr>m_smoothGain := Finite (8589941 / 2 ^ 33)\<rparr>;
       q = processFrame e t frame
   in m_state s \<noteq> None \<and> m_suppressionLevel s = Finite 1 \<and> m_vadThreshold s = Finite 0 \<and>
      m_smoothGain s = Finite (15436381 / 2 ^ 24) \<and> snd (snd r) = Finite 0 \<and>
      m_smoothGain (fst r) = Finite (15543648 / 2 ^ 24) \<and>
      flt (m_smoothGain s) (m_smoothGain (fst r)) \<and>
      m_state t \<noteq> None \<and> m_suppressionLevel t = Finite 1 \<and>
      m_vadThreshold t = Finite (1 / 2) \<and> snd (snd q) = Finite 0 \<and>
      kMinGateGain = Finite (8589935 / 2 ^ 33) \<and> binary32 (m_smoothGain t) \<and>
      flt kMinGateGain (m_smoothGain t) \<and> fle (m_smoothGain t) (Finite 1) \<and>
      m_smoothGain (fst q) = m_smoothGain t"
proof -
  let ?e = "\<lambda>(st::nat) (f::nat \<Rightarrow> float). (Finite 0, st, f)"
  let ?f = "\<lambda>i::nat. Finite 0"
  let ?sa = "fst (init (RNNoiseWrapper_new :: nat RNNoiseWrapper) (Some 0))"
  let ?sb = "fst (processFrame ?e ?sa ?f)"
  let ?sc = "setVadThreshold ?sb (Finite 0)"
  let ?t = "?sa\<lparr>m_smoothGain := Finite (8589941 / 2 ^ 33)\<rparr>"
  have run: "run ?e RNNoiseWrapper_new [Init (Some 0), ProcessFrame ?f, SetVadThreshold (Finite 0)]
      = ?sc"
    by (simp add: run_def)
  have s0: "m_state ?sa = Some 0" "\<not> fle (m_suppressionLevel ?sa) (Finite 0)"
    "m_suppressionLevel ?sa = Finite 1" "m_vadThreshold ?sa = Finite (1 / 2)"
    "m_smoothGain ?sa = Finite 1"
    by (simp_all add: init_def RNNoiseWrapper_new_def Let_def)
  note P1 = processFrame_full_gain [OF s0(1,2), of ?e ?f]
  have v: "fst (denoiseBlend ?e st l f) = Finite 0" for st l f
    by (simp add: denoiseBlend_vad)
  have t1: "targetGain (Finite 0) (Finite (1 / 2)) = kMinGateGain"
    by (rule targetGain_zero_vad) (simp add: kVadHysteresis_val)
  have g1: "m_smoothGain ?sb = Finite (15436381 / 2 ^ 24)"
    unfolding P1(1) v s0 t1 by (rule smoothStep_from_one)
  from P1(3) obtain st1 where st1: "m_state ?sb = Some st1" by auto
  have s: "m_state ?sc = Some st1" "\<not> fle (m_suppressionLevel ?sc) (Finite 0)"
    "m_suppressionLevel ?sc = Finite 1" "m_vadThreshold ?sc = Finite 0"
    "m_smoothGain ?sc = Finite (15436381 / 2 ^ 24)"
    using st1 P1(4) s0(3) g1 by (simp_all add: setVadThreshold_def std_clamp_def)
  note P2 = processFrame_full_gain [OF s(1,2), of ?e ?f]
  have t2: "targetGain (Finite 0) (Finite 0) = Finite 1" by (simp add: targetGain_def)
  have g2: "m_smoothGain (fst (processFrame ?e ?sc ?f)) = Finite (15543648 / 2 ^ 24)"
    unfolding P2(1) v s(4,5) t2 by (rule smoothStep_to_one)
  have r: "snd (snd (processFrame ?e ?sc ?f)) = Finite 0"
    unfolding P2(2) v ..
  have u: "m_state ?t = Some 0" "\<not> fle (m_suppressionLevel ?t) (Finite 0)"
    "m_suppressionLevel ?t = Finite 1" "m_vadThreshold ?t = Finite (1 / 2)"
    "m_smoothGain ?t = Finite (8589941 / 2 ^ 33)"
    by (simp_all add: init_def RNNoiseWrapper_new_def Let_def)
  note P3 = processFrame_full_gain [OF u(1,2), of ?e ?f]
  have g3: "m_smoothGain (fst (processFrame ?e ?t ?f)) = Finite (8589941 / 2 ^ 33)"
    unfolding P3(1) v u(4,5) t1 by (rule smoothStep_stall)
  have q: "snd (snd (processFrame ?e ?t ?f)) = Finite 0"
    unfolding P3(2) v ..
  have first: "m_state ?sc \<noteq> None \<and> m_suppressionLevel ?sc = Finite 1 \<and>
      m_vadThreshold ?sc = Finite 0 \<and> m_smoothGain ?sc = Finite (15436381 / 2 ^ 24) \<and>
      snd (snd (processFrame ?e ?sc ?f)) = Finite 0 \<and>
      m_smoothGain (fst (processFrame ?e ?sc ?f)) = Finite (15543648 / 2 ^ 24) \<and>
      flt (m_smoothGain ?sc) (m_smoothGain (fst (processFrame ?e ?sc ?f)))"
    unfolding g2 s(5) using s(1,3,4) r by simp
  have second: "m_state ?t \<noteq> None \<and> m_suppressionLevel ?t = Finite 1 \<and>
      m_vadThreshold ?t = Finite (1 / 2) \<and> snd (snd (processFrame ?e ?t ?f)) = Finite 0 \<and>
      kMinGateGain = Finite (8589935 / 2 ^ 33) \<and> binary32 (m_smoothGain ?t) \<and>
      flt kMinGateGain (m_smoothGain ?t) \<and> fle (m_smoothGain ?t) (Finite 1) \<and>
      m_smoothGain (fst (processFrame ?e ?t ?f)) = m_smoothGain ?t"
    unfolding g3 u(5) using u(1,3,4) q binary32_stall by (simp add: kMinGateGain_val)
  show ?thesis
    unfolding Let_def run using first second by blast
qed

section \<open>The frame processor: the target gain\<close>

lemma fle_imp_not_flt: "fle a b \<Longrightarrow> \<not> flt b a"
  by (cases a; cases b) simp_all

lemma round32_le:
  assumes "x \<le> t" "rnd32 t = t" "\<bar>t\<bar> < 2 ^ 128"
  shows "fle (round32 x) (Finite t)"
proof -
  have a: "rnd32 x \<le> t" using rnd32_mono [OF assms(1)] assms(2) by simp
  show ?thesis
  proof (cases "2 ^ 128 \<le> \<bar>rnd32 x\<bar>")
    case True
    with a assms(3) have "rnd32 x < 0" by linarith
    then have "\<not> 0 < x" using rnd32_nonneg [of x] by (cases "0 \<le> x") simp_all
    then show ?thesis using True by (simp add: round32_def Let_def)
  next
    case False
    then show ?thesis using a by (simp add: round32_def Let_def)
  qed
qed

lemma fsub_hysteresis_le:
  assumes "binary32 T"
  shows "fle (fsub T kVadHysteresis) T \<or> T = NaN"
proof (cases T)
  case (Finite t)
  have "fle (round32 (t - 13421773 / 2 ^ 27)) (Finite t)"
    using assms unfolding Finite by (intro round32_le) (simp_all add: binary32_def)
  then show ?thesis unfolding Finite by (simp add: fsub_def kVadHysteresis_val)
qed (simp_all add: fsub_def kVadHysteresis_val)

lemma fle_trans_flt: "flt v a \<Longrightarrow> fle a b \<Longrightarrow> flt v b"
  by (cases v; cases a; cases b) simp_all

lemma below_band_not_above:
  assumes "binary32 T" "flt v (fsub T kVadHysteresis)"
  shows "\<not> fle T v"
proof -
  from fsub_hysteresis_le [OF assms(1)] show ?thesis
  proof
    assume "fle (fsub T kVadHysteresis) T"
    with assms(2) have "flt v T" by (rule fle_trans_flt)
    then show ?thesis by (rule flt_imp_not_fle)
  next
    assume "T = NaN"
    then show ?thesis by simp
  qed
qed

lemma targetGain_cases:
  assumes "binary32 T"
  shows "(fle T v \<longrightarrow> targetGain v T = Finite 1) \<and>
     (flt v (fsub T (flit (1 / 10))) \<longrightarrow>
        targetGain v T =
          std_max (fadd (flit (1 / 1000))
                     (fmul (fdiv v (std_max (fsub T (flit (1 / 10))) (flit (1 / 100))))
                        (fsub (Finite 1) (flit (1 / 1000)))))
            (flit (1 / 1000))) \<and>
     (fle (fsub T (flit (1 / 10))) v \<and> flt v T \<longrightarrow>
        targetGain v T =
          fadd (flit (1 / 1000))
            (fmul (fdiv (fsub v (fsub T (flit (1 / 10)))) (flit (1 / 10)))
               (fsub (Finite 1) (flit (1 / 1000)))))"
proof -
  have a: "\<not> fle T v" if "flt v (fsub T (flit (1 / 10)))"
    using below_band_not_above [OF assms] that by (simp add: kVadHysteresis_def)
  have b: "\<not> fle T v" "\<not> flt v (fsub T (flit (1 / 10)))"
    if "fle (fsub T (flit (1 / 10))) v \<and> flt v T"
    using that by (simp_all add: flt_imp_not_fle fle_imp_not_flt)
  show ?thesis
    using a b by (auto simp add: targetGain_def kVadHysteresis_def kMinGateGain_def Let_def)
qed

lemma fadd_eval:
  assumes "rnd32 (x + y) = v" "\<bar>x + y\<bar> \<le> 2 ^ 127"
  shows "fadd (Finite x) (Finite y) = Finite v"
  using round32_small [OF assms(2)] assms(1) by simp

lemma fsub_eval:
  assumes "rnd32 (x - y) = v" "\<bar>x - y\<bar> \<le> 2 ^ 127"
  shows "fsub (Finite x) (Finite y) = Finite v"
  using round32_small [OF assms(2)] assms(1) by (simp add: fsub_def)

lemma fmul_eval:
  assumes "rnd32 (x * y) = v" "\<bar>x * y\<bar> \<le> 2 ^ 127"
  shows "fmul (Finite x) (Finite y) = Finite v"
  using round32_small [OF assms(2)] assms(1) by simp

lemma fdiv_eval:
  assumes "rnd32 (x / y) = v" "\<bar>x / y\<bar> \<le> 2 ^ 127" "y \<noteq> 0"
  shows "fdiv (Finite x) (Finite y) = Finite v"
  using round32_small [OF assms(2)] assms(1,3) by simp

lemma one_minus_milli: "fsub (Finite 1) (Finite (8589935 / 2 ^ 33)) = Finite (16760439 / 2 ^ 24)"
  using one_minus_kMin unfolding kMinGateGain_val .

lemma binary32_half: "binary32 (Finite (1 / 2))"
  using rnd32_pow2 [of "- 1"] by (simp add: binary32_def)

lemma binary32_one: "binary32 (Finite 1)"
  by (simp add: binary32_def)

lemma example_D:
  "fsub (Finite (1 / 2)) (Finite (13421773 / 2 ^ 27)) = Finite (13421773 / 2 ^ 25)"
  by (rule fsub_eval)
    (use rnd32_eqI [of "- 2" "1 / 2 - 13421773 / 2 ^ 27" 13421773] in simp_all)

lemma example_below:
  "std_max
     (fadd (Finite (8589935 / 2 ^ 33))
        (fmul (fdiv (Finite (1 / 4))
                 (std_max (Finite (13421773 / 2 ^ 25)) (Finite (10737418 / 2 ^ 30))))
           (Finite (16760439 / 2 ^ 24))))
     (Finite (8589935 / 2 ^ 33)) = Finite (10492051 / 2 ^ 24)"
proof -
  have m1: "std_max (Finite (13421773 / 2 ^ 25)) (Finite (10737418 / 2 ^ 30))
      = Finite (13421773 / 2 ^ 25)"
    by (simp add: std_max_def)
  have b1: "fdiv (Finite (1 / 4)) (Finite (13421773 / 2 ^ 25)) = Finite (5 / 8)"
    by (rule fdiv_eval)
      (use rnd32_eqI [of "- 1" "1 / 4 / (13421773 / 2 ^ 25)" 10485760] in simp_all)
  have b2: "fmul (Finite (5 / 8)) (Finite (16760439 / 2 ^ 24)) = Finite (5237637 / 2 ^ 23)"
    by (rule fmul_eval)
      (use rnd32_eqI [of "- 1" "5 / 8 * (16760439 / 2 ^ 24)" 10475274] in simp_all)
  have b3: "fadd (Finite (8589935 / 2 ^ 33)) (Finite (5237637 / 2 ^ 23))
      = Finite (10492051 / 2 ^ 24)"
    by (rule fadd_eval)
      (use rnd32_eqI [of "- 1" "8589935 / 2 ^ 33 + 5237637 / 2 ^ 23" 10492051] in simp_all)
  have b4: "std_max (Finite (10492051 / 2 ^ 24)) (Finite (8589935 / 2 ^ 33))
      = Finite (10492051 / 2 ^ 24)"
    by (simp add: std_max_def)
  show ?thesis unfolding m1 b1 b2 b3 b4 ..
qed

lemma example_band:
  "fadd (Finite (8589935 / 2 ^ 33))
     (fmul (fdiv (fsub (Finite (7 / 16)) (Finite (13421773 / 2 ^ 25)))
              (Finite (13421773 / 2 ^ 27)))
        (Finite (16760439 / 2 ^ 24))) = Finite (12603881 / 2 ^ 25)"
proof -
  have c1: "fsub (Finite (7 / 16)) (Finite (13421773 / 2 ^ 25)) = Finite (1258291 / 2 ^ 25)"
    by (rule fsub_eval)
      (use rnd32_eqI [of "- 5" "7 / 16 - 13421773 / 2 ^ 25" 10066328] in simp_all)
  have c2: "fdiv (Finite (1258291 / 2 ^ 25)) (Finite (13421773 / 2 ^ 27))
      = Finite (6291455 / 2 ^ 24)"
    by (rule fdiv_eval)
      (use rnd32_eqI [of "- 2" "1258291 / 2 ^ 25 / (13421773 / 2 ^ 27)" 12582910] in simp_all)
  have c3: "fmul (Finite (6291455 / 2 ^ 24)) (Finite (16760439 / 2 ^ 24))
      = Finite (12570327 / 2 ^ 25)"
    by (rule fmul_eval)
      (use rnd32_eqI [of "- 2" "6291455 / 2 ^ 24 * (16760439 / 2 ^ 24)" 12570327] in simp_all)
  have c4: "fadd (Finite (8589935 / 2 ^ 33)) (Finite (12570327 / 2 ^ 25))
      = Finite (12603881 / 2 ^ 25)"
    by (rule fadd_eval)
      (use rnd32_eqI [of "- 2" "8589935 / 2 ^ 33 + 12570327 / 2 ^ 25" 12603881] in simp_all)
  show ?thesis unfolding c1 c2 c3 c4 ..
qed

lemma targetGain_example:
  "targetGain (Finite (1 / 4)) (Finite (1 / 2)) = Finite (10492051 / 2 ^ 24)"
proof -
  have "flt (Finite (1 / 4)) (fsub (Finite (1 / 2)) (Finite (13421773 / 2 ^ 27)))"
    unfolding example_D by simp
  from targetGain_cases [OF binary32_half, of "Finite (1 / 4)",
      unfolded flit_milli flit_tenth flit_centi, THEN conjunct2, THEN conjunct1, THEN mp, OF this]
  show ?thesis unfolding example_D one_minus_milli example_below .
qed

lemma smoothStep_example:
  "smoothStep (Finite 1) (Finite (10492051 / 2 ^ 24)) = Finite (16274403 / 2 ^ 24)"
proof -
  have d1: "rnd32 (10492051 / 2 ^ 24 - 1) = - 6285165 / 2 ^ 24"
    using rnd32_eqI [of "- 2" "10492051 / 2 ^ 24 - 1" "- 12570330"] by simp
  have d2: "rnd32 (10737418 / 2 ^ 27 * (- 6285165 / 2 ^ 24)) = - 8045011 / 2 ^ 28"
    using rnd32_eqI [of "- 6" "10737418 / 2 ^ 27 * (- 6285165 / 2 ^ 24)" "- 16090022"] by simp
  have d3: "rnd32 (1 + - 8045011 / 2 ^ 28) = 16274403 / 2 ^ 24"
    using rnd32_eqI [of "- 1" "1 + - 8045011 / 2 ^ 28" 16274403] by simp
  show ?thesis
    by (rule smoothStep_eval [OF d1 d2 d3]) simp_all
qed

text \<open>
  Claim C1, as amended. On the full path of \<open>processFrame\<close> (engine present, level not
  \<open>\<le> 0\<close>) the smoothed gain becomes the clamp to \<open>[0.001f, 1]\<close> of
  \<open>gain + 0.08f * (target - gain)\<close>, where \<open>target\<close> is the target gain of the returned VAD
  probability \<open>vad\<close> and the threshold \<open>T\<close>. With \<open>H = 0.1f\<close>, \<open>G_min = 0.001f\<close> and \<open>D\<close> the
  single-precision difference of \<open>T\<close> and \<open>H\<close>, the target is 1 when \<open>vad \<ge> T\<close>; it is
  \<open>max (G_min + vad / max D 0.01f * (1 - G_min)) G_min\<close> when \<open>vad < D\<close>; and it is
  \<open>G_min + (vad - D) / H * (1 - G_min)\<close>, with no further clamp, when \<open>D \<le> vad < T\<close>; every
  operation and comparison is the one of single precision, \<open>max\<close> is \<open>std::max\<close>.
\<close>

theorem target_gate_gain:
  assumes "m_state s = Some st" and "\<not> fle (m_suppressionLevel s) (Finite 0)"
    and "processFrame engine s frame = (s', out, vad)"
  shows "(let v = fadd (m_smoothGain s)
                 (fmul (flit (8 / 100))
                    (fsub (targetGain vad (m_vadThreshold s)) (m_smoothGain s)))
     in m_smoothGain s' =
          (if flt v (flit (1 / 1000)) then flit (1 / 1000)
           else if flt (Finite 1) v then Finite 1 else v)) \<and>
    (\<forall>v T. binary32 T \<longrightarrow>
       (let H = flit (1 / 10); G = flit (1 / 1000); D = fsub T H
        in (fle T v \<longrightarrow> targetGain v T = Finite 1) \<and>
           (flt v D \<longrightarrow>
              targetGain v T =
                std_max (fadd G (fmul (fdiv v (std_max D (flit (1 / 100)))) (fsub (Finite 1) G)))
                  G) \<and>
           (fle D v \<and> flt v T \<longrightarrow>
              targetGain v T = fadd G (fmul (fdiv (fsub v D) H) (fsub (Finite 1) G)))))"
proof -
  have "m_smoothGain s' = m_smoothGain (fst (processFrame engine s frame))"
    "vad = snd (snd (processFrame engine s frame))"
    using assms(3) by simp_all
  then have "let v = fadd (m_smoothGain s)
                 (fmul (flit (8 / 100))
                    (fsub (targetGain vad (m_vadThreshold s)) (m_smoothGain s)))
     in m_smoothGain s' =
          (if flt v (flit (1 / 1000)) then flit (1 / 1000)
           else if flt (Finite 1) v then Finite 1 else v)"
    using processFrame_full_gain(1,2) [OF assms(1,2), of engine frame]
    by (simp add: smoothStep_def std_clamp_def Let_def kGainSmoothCoeff_def kMinGateGain_def)
  then show ?thesis unfolding Let_def using targetGain_cases by blast
qed

theorem target_gate_gain_witness:
  "let s = (RNNoiseWrapper_new :: nat RNNoiseWrapper)\<lparr>m_state := Some 0\<rparr>;
       r = processFrame (\<lambda>st f. (Finite (1 / 4), st, f)) s (\<lambda>i. Finite (1 / 2))
   in m_state s = Some 0 \<and> \<not> fle (m_suppressionLevel s) (Finite 0) \<and>
      binary32 (Finite (1 / 2)) \<and> snd (snd r) = Finite (1 / 4) \<and>
      targetGain (Finite (3 / 4)) (Finite (1 / 2)) = Finite 1 \<and>
      targetGain (Finite (1 / 4)) (Finite (1 / 2)) = Finite (10492051 / 2 ^ 24) \<and>
      targetGain (Finite (7 / 16)) (Finite (1 / 2)) = Finite (12603881 / 2 ^ 25) \<and>
      m_smoothGain (fst r) = Finite (16274403 / 2 ^ 24)"
proof -
  let ?s = "(RNNoiseWrapper_new :: nat RNNoiseWrapper)\<lparr>m_state := Some 0\<rparr>"
  let ?e = "\<lambda>(st::nat) (f::nat \<Rightarrow> float). (Finite (1 / 4), st, f)"
  let ?r = "processFrame ?e ?s (\<lambda>i. Finite (1 / 2))"
  have h1: "m_state ?s = Some 0" by simp
  have h2: "\<not> fle (m_suppressionLevel ?s) (Finite 0)" by (simp add: RNNoiseWrapper_new_def)
  have v: "snd (snd ?r) = Finite (1 / 4)"
    by (simp add: processFrame_def Let_def split_beta denoiseBlend_def RNNoiseWrapper_new_def)
  have h3: "?r = (fst ?r, fst (snd ?r), Finite (1 / 4))"
    using v by (simp add: prod_eq_iff)
  note T = target_gate_gain [OF h1 h2 h3]
  note Ca = T [THEN conjunct2, THEN spec [where x = "Finite (3 / 4)"],
      THEN spec [where x = "Finite (1 / 2)"], THEN mp,
      OF binary32_half, unfolded Let_def flit_milli flit_tenth flit_centi]
  note Cb = T [THEN conjunct2, THEN spec [where x = "Finite (1 / 4)"],
      THEN spec [where x = "Finite (1 / 2)"], THEN mp,
      OF binary32_half, unfolded Let_def flit_milli flit_tenth flit_centi]
  note Cc = T [THEN conjunct2, THEN spec [where x = "Finite (7 / 16)"],
      THEN spec [where x = "Finite (1 / 2)"], THEN mp,
      OF binary32_half, unfolded Let_def flit_milli flit_tenth flit_centi]
  have ta: "targetGain (Finite (3 / 4)) (Finite (1 / 2)) = Finite 1"
    using Ca [THEN conjunct1] by simp
  have "flt (Finite (1 / 4)) (fsub (Finite (1 / 2)) (Finite (13421773 / 2 ^ 27)))"
    unfolding example_D by simp
  from Cb [THEN conjunct2, THEN conjunct1, THEN mp, OF this]
  have tb: "targetGain (Finite (1 / 4)) (Finite (1 / 2)) = Finite (10492051 / 2 ^ 24)"
    unfolding example_D one_minus_milli example_below .
  have "fle (fsub (Finite (1 / 2)) (Finite (13421773 / 2 ^ 27))) (Finite (7 / 16)) \<and>
      flt (Finite (7 / 16)) (Finite (1 / 2))"
    unfolding example_D by simp
  from Cc [THEN conjunct2, THEN conjunct2, THEN mp, OF this]
  have tc: "targetGain (Finite (7 / 16)) (Finite (1 / 2)) = Finite (12603881 / 2 ^ 25)"
    unfolding example_D one_minus_milli example_band .
  have s: "m_smoothGain ?s = Finite 1" "m_vadThreshold ?s = Finite (1 / 2)"
    by (simp_all add: RNNoiseWrapper_new_def)
  have g: "m_smoothGain (fst ?r) = Finite (16274403 / 2 ^ 24)"
    using T [THEN conjunct1] smoothStep_example
    unfolding s tb smoothStep_def std_clamp_def kGainSmoothCoeff_def kMinGateGain_def Let_def
      flit_1
    by simp
  show ?thesis
    unfolding Let_def using h1 h2 binary32_half v ta tb tc g by blast
qed

text \<open>
  Claim C1, as stated, takes \<open>T - H\<close> for the difference of the two numbers. The code
  compares with the rounded difference: with \<open>T = 1\<close> it is \<open>7549747 / 2 ^ 23\<close>, about
  0.89999998, which is less than \<open>1 - 0.1\<close> and less than \<open>1 - 0.1f\<close>. A VAD probability of
  this value is below \<open>T - H\<close>, where the claim gives a target above 0.99, and the code takes
  it for the lower edge of the band: its target is \<open>0.001f\<close>, and the gain falls from 1 to
  \<open>15436381 / 2 ^ 24\<close>, about 0.92008, as it does when the gate closes.
\<close>

theorem target_gain_at_band_edge:
  "let vad = Finite (7549747 / 2 ^ 23); T = Finite 1;
       e = (\<lambda>(st::nat) (f::nat \<Rightarrow> float). (vad, st, f));
       s = run e RNNoiseWrapper_new [Init (Some 0), SetVadThreshold T];
       r = processFrame e s (\<lambda>i. Finite 0)
   in binary32 vad \<and> binary32 T \<and> m_state s \<noteq> None \<and>
      \<not> fle (m_suppressionLevel s) (Finite 0) \<and> m_vadThreshold s = T \<and>
      snd (snd r) = vad \<and>
      (7549747 / 2 ^ 23 :: real) < 1 - 1 / 10 \<and>
      (7549747 / 2 ^ 23 :: real) < 1 - 13421773 / 2 ^ 27 \<and>
      (99 / 100 :: real)
        < max (1 / 1000 + 7549747 / 2 ^ 23 / max (1 - 1 / 10) (1 / 100) * (1 - 1 / 1000))
            (1 / 1000) \<and>
      kVadHysteresis = Finite (13421773 / 2 ^ 27) \<and> fsub T kVadHysteresis = vad \<and>
      targetGain vad T = Finite (8589935 / 2 ^ 33) \<and>
      m_smoothGain s = Finite 1 \<and> m_smoothGain (fst r) = Finite (15436381 / 2 ^ 24)"
proof -
  let ?v = "Finite (7549747 / 2 ^ 23)"
  let ?e = "\<lambda>(st::nat) (f::nat \<Rightarrow> float). (?v, st, f)"
  let ?s = "run ?e RNNoiseWrapper_new [Init (Some 0), SetVadThreshold (Finite 1)]"
  let ?r = "processFrame ?e ?s (\<lambda>i. Finite 0)"
  have "rnd32 (7549747 / 2 ^ 23) = 7549747 / 2 ^ 23"
    using rnd32_eqI [of "- 1" "7549747 / 2 ^ 23" 15099494] by simp
  then have bv: "binary32 ?v" by (simp add: binary32_def)
  have s: "m_state ?s = Some 0" "\<not> fle (m_suppressionLevel ?s) (Finite 0)"
    "m_vadThreshold ?s = Finite 1" "m_smoothGain ?s = Finite 1"
    by (simp_all add: run_def init_def setVadThreshold_def std_clamp_def RNNoiseWrapper_new_def
        Let_def)
  have D: "fsub (Finite 1) kVadHysteresis = ?v"
    unfolding kVadHysteresis_val
    by (rule fsub_eval) (use rnd32_eqI [of "- 1" "1 - 13421773 / 2 ^ 27" 15099494] in simp_all)
  have z: "fdiv (fsub ?v ?v) kVadHysteresis = Finite 0"
    by (simp add: fsub_def kVadHysteresis_val)
  have t: "targetGain ?v (Finite 1) = kMinGateGain"
    unfolding targetGain_def D z by (simp add: gate_floor)
  note P = processFrame_full_gain [OF s(1,2), of ?e "\<lambda>i. Finite 0"]
  have vd: "fst (denoiseBlend ?e st l f) = ?v" for st l f
    by (simp add: denoiseBlend_vad)
  have g: "m_smoothGain (fst ?r) = Finite (15436381 / 2 ^ 24)"
    unfolding P(1) vd s(3,4) t by (rule smoothStep_from_one)
  have r: "snd (snd ?r) = ?v" unfolding P(2) vd ..
  have n: "(7549747 / 2 ^ 23 :: real) < 1 - 1 / 10"
    "(7549747 / 2 ^ 23 :: real) < 1 - 13421773 / 2 ^ 27"
    "(99 / 100 :: real)
        < max (1 / 1000 + 7549747 / 2 ^ 23 / max (1 - 1 / 10) (1 / 100) * (1 - 1 / 1000))
            (1 / 1000)"
    by simp_all
  show ?thesis
    unfolding Let_def
    using bv binary32_one s r n kVadHysteresis_val D t [unfolded kMinGateGain_val] g
    by (simp only: simp_thms not_False_eq_True option.distinct)
qed

section \<open>The frame processor: the range of the smoothed gain\<close>

lemma fadd_not_NaN: "a \<noteq> NaN \<Longrightarrow> fadd (Finite x) a \<noteq> NaN"
  by (cases a) simp_all

lemma fsub_Finite_not_NaN: "a \<noteq> NaN \<Longrightarrow> fsub a (Finite x) \<noteq> NaN"
  by (cases a) (simp_all add: fsub_def)

lemma fmul_not_NaN: "a \<noteq> NaN \<Longrightarrow> x \<noteq> 0 \<Longrightarrow> fmul a (Finite x) \<noteq> NaN"
  by (cases a) simp_all

lemma fmul_not_NaN2: "a \<noteq> NaN \<Longrightarrow> x \<noteq> 0 \<Longrightarrow> fmul (Finite x) a \<noteq> NaN"
  by (cases a) simp_all

lemma fdiv_not_NaN: "a \<noteq> NaN \<Longrightarrow> y \<noteq> 0 \<Longrightarrow> fdiv a (Finite y) \<noteq> NaN"
  by (cases a) simp_all

lemma std_max_not_NaN: "a \<noteq> NaN \<Longrightarrow> b \<noteq> NaN \<Longrightarrow> std_max a b \<noteq> NaN"
  by (simp add: std_max_def)

lemma std_clamp_range:
  assumes "v \<noteq> NaN" "lo \<le> hi"
  shows "\<exists>x. std_clamp v (Finite lo) (Finite hi) = Finite x \<and> lo \<le> x \<and> x \<le> hi"
  using assms by (cases v) (auto simp add: std_clamp_def)

lemma targetGain_not_NaN:
  assumes "vad \<noteq> NaN" "0 \<le> t" "t \<le> 1"
  shows "targetGain vad (Finite t) \<noteq> NaN"
proof -
  define h :: real where "h = 13421773 / 2 ^ 27"
  define w :: real where "w = 16760439 / 2 ^ 24"
  have H: "kVadHysteresis = Finite h" unfolding h_def by (rule kVadHysteresis_val)
  have W: "fsub (Finite 1) kMinGateGain = Finite w" unfolding w_def by (rule one_minus_kMin)
  have K: "kMinGateGain = Finite (8589935 / 2 ^ 33)" by (rule kMinGateGain_val)
  have hw: "h \<noteq> 0" "w \<noteq> 0" by (simp_all add: h_def w_def)
  have "\<bar>t - h\<bar> \<le> 2 ^ 127" using assms(2,3) by (simp add: h_def)
  then have "round32 (t - h) = Finite (rnd32 (t - h))" by (rule round32_small)
  then have D: "fsub (Finite t) kVadHysteresis = Finite (rnd32 (t - h))"
    unfolding H by (simp add: fsub_def)
  define d where "d = rnd32 (t - h)"
  have "\<exists>m. std_max (Finite d) (flit (1 / 100)) = Finite m \<and> m \<noteq> 0"
  proof (cases "d < 10737418 / 2 ^ 30")
    case True
    then have "std_max (Finite d) (flit (1 / 100)) = Finite (10737418 / 2 ^ 30)"
      by (simp add: std_max_def flit_centi)
    then show ?thesis by (intro exI [of _ "10737418 / 2 ^ 30"]) simp
  next
    case False
    then have "std_max (Finite d) (flit (1 / 100)) = Finite d" "d \<noteq> 0"
      by (simp_all add: std_max_def flit_centi)
    then show ?thesis by simp
  qed
  then obtain m where M: "std_max (Finite d) (flit (1 / 100)) = Finite m" "m \<noteq> 0"
    by blast
  have low: "std_max (fadd kMinGateGain (fmul (fdiv vad (Finite m)) (Finite w))) kMinGateGain
      \<noteq> NaN"
    unfolding K
    by (intro std_max_not_NaN fadd_not_NaN fmul_not_NaN fdiv_not_NaN assms(1) hw M(2)) simp
  have band: "fadd kMinGateGain (fmul (fdiv (fsub vad (Finite d)) (Finite h)) (Finite w))
      \<noteq> NaN"
    unfolding K
    by (intro fadd_not_NaN fmul_not_NaN fdiv_not_NaN fsub_Finite_not_NaN assms(1) hw)
  show ?thesis
    unfolding targetGain_def D d_def [symmetric] Let_def M(1)
    unfolding H using low band by (simp add: W)
qed

lemma smoothStep_range:
  assumes "target \<noteq> NaN"
  shows "\<exists>x. smoothStep (Finite g) target = Finite x \<and> 8589935 / 2 ^ 33 \<le> x \<and> x \<le> 1"
proof -
  have "fsub target (Finite g) \<noteq> NaN" using assms by (rule fsub_Finite_not_NaN)
  then have "fmul (Finite (10737418 / 2 ^ 27)) (fsub target (Finite g)) \<noteq> NaN"
    by (rule fmul_not_NaN2) simp
  then have "fadd (Finite g) (fmul (Finite (10737418 / 2 ^ 27)) (fsub target (Finite g))) \<noteq> NaN"
    by (rule fadd_not_NaN)
  from std_clamp_range [OF this, of "8589935 / 2 ^ 33" 1] show ?thesis
    unfolding smoothStep_def kGainSmoothCoeff_val kMinGateGain_val Let_def flit_1 by simp
qed

lemma processFrame_gate_ok:
  assumes "\<And>st0 f0. fst (engine st0 f0) \<noteq> NaN"
    and "\<exists>g. m_smoothGain s = Finite g \<and> 8589935 / 2 ^ 33 \<le> g \<and> g \<le> 1"
    and "\<exists>t. m_vadThreshold s = Finite t \<and> 0 \<le> t \<and> t \<le> 1"
  shows "\<exists>g. m_smoothGain (fst (processFrame engine s frame)) = Finite g
           \<and> 8589935 / 2 ^ 33 \<le> g \<and> g \<le> 1"
    and "m_vadThreshold (fst (processFrame engine s frame)) = m_vadThreshold s"
proof -
  show "m_vadThreshold (fst (processFrame engine s frame)) = m_vadThreshold s"
    by (simp add: processFrame_def Let_def split_beta split: option.split)
  show "\<exists>g. m_smoothGain (fst (processFrame engine s frame)) = Finite g
           \<and> 8589935 / 2 ^ 33 \<le> g \<and> g \<le> 1"
  proof (cases "m_state s")
    case None
    then show ?thesis using assms(2) by (simp add: processFrame_uninitialized)
  next
    case (Some st)
    show ?thesis
    proof (cases "fle (m_suppressionLevel s) (Finite 0)")
      case True
      then show ?thesis using assms(2) by (simp add: processFrame_passthrough [OF Some])
    next
      case False
      from assms(2) obtain g where g: "m_smoothGain s = Finite g" by blast
      from assms(3) obtain t where t: "m_vadThreshold s = Finite t" "0 \<le> t" "t \<le> 1" by blast
      have "fst (denoiseBlend engine st (m_suppressionLevel s) frame) \<noteq> NaN"
        unfolding denoiseBlend_vad by (rule assms(1))
      then have "targetGain (fst (denoiseBlend engine st (m_suppressionLevel s) frame)) (Finite t)
          \<noteq> NaN"
        using t(2,3) by (rule targetGain_not_NaN)
      from smoothStep_range [OF this, of g] show ?thesis
        unfolding processFrame_full_gain(1) [OF Some False] g t(1) .
    qed
  qed
qed

lemma setVadThreshold_range:
  assumes "threshold \<noteq> NaN"
  shows "\<exists>t. m_vadThreshold (setVadThreshold s threshold) = Finite t \<and> 0 \<le> t \<and> t \<le> 1"
  using std_clamp_range [OF assms, of 0 1] by (simp add: setVadThreshold_def)

lemma step_gate_ok:
  assumes "\<And>st0 f0. fst (engine st0 f0) \<noteq> NaN"
    and "c \<noteq> SetVadThreshold NaN"
    and "(\<exists>g. m_smoothGain s = Finite g \<and> 8589935 / 2 ^ 33 \<le> g \<and> g \<le> 1) \<and>
         (\<exists>t. m_vadThreshold s = Finite t \<and> 0 \<le> t \<and> t \<le> 1)"
  shows "(\<exists>g. m_smoothGain (step engine s c) = Finite g \<and> 8589935 / 2 ^ 33 \<le> g \<and> g \<le> 1) \<and>
         (\<exists>t. m_vadThreshold (step engine s c) = Finite t \<and> 0 \<le> t \<and> t \<le> 1)"
proof (cases c)
  case (ProcessFrame frame)
  from processFrame_gate_ok [of engine s frame, OF assms(1)] assms(3) show ?thesis
    unfolding ProcessFrame by simp
next
  case (SetVadThreshold threshold)
  with assms(2) have "threshold \<noteq> NaN" by simp
  from setVadThreshold_range [OF this, of s] assms(3) show ?thesis
    unfolding SetVadThreshold by (simp add: setVadThreshold_def)
qed (use assms(3) in \<open>simp_all add: init_def destroy_def setSuppressionLevel_def
       setComfortNoise_def Let_def\<close>)

lemma run_gate_ok:
  assumes "\<And>st0 f0. fst (engine st0 f0) \<noteq> NaN"
    and "SetVadThreshold NaN \<notin> set calls"
    and "(\<exists>g. m_smoothGain s = Finite g \<and> 8589935 / 2 ^ 33 \<le> g \<and> g \<le> 1) \<and>
         (\<exists>t. m_vadThreshold s = Finite t \<and> 0 \<le> t \<and> t \<le> 1)"
  shows "\<exists>g. m_smoothGain (run engine s calls) = Finite g \<and> 8589935 / 2 ^ 33 \<le> g \<and> g \<le> 1"
  using assms(2,3)
proof (induction calls arbitrary: s)
  case Nil
  then show ?case by (simp add: run_def)
next
  case (Cons c calls)
  have r: "run engine s (c # calls) = run engine (step engine s c) calls"
    by (simp add: run_def)
  have "c \<noteq> SetVadThreshold NaN" "SetVadThreshold NaN \<notin> set calls"
    using Cons.prems(1) by auto
  from Cons.IH [OF this(2) step_gate_ok [of engine c s, OF assms(1) this(1) Cons.prems(2)]]
  show ?case unfolding r .
qed

lemma NaN_right [simp]:
  "fadd a NaN = NaN" "fsub a NaN = NaN" "fmul a NaN = NaN" "fdiv a NaN = NaN"
  "\<not> flt a NaN" "\<not> fle a NaN"
  by (cases a; simp add: fsub_def)+

lemma NaN_left [simp]: "fsub NaN a = NaN"
  by (simp add: fsub_def)

lemma smoothStep_above:
  "smoothStep (Finite 5) (Finite (10492051 / 2 ^ 24)) = Finite 1"
proof -
  have a: "fsub (Finite (10492051 / 2 ^ 24)) (Finite 5) = Finite (- 4587127 / 2 ^ 20)"
    by (rule fsub_eval)
      (use rnd32_eqI [of 2 "10492051 / 2 ^ 24 - 5" "- 9174254"] in simp_all)
  have b: "fmul (Finite (10737418 / 2 ^ 27)) (Finite (- 4587127 / 2 ^ 20))
      = Finite (- 11743045 / 2 ^ 25)"
    by (rule fmul_eval)
      (use rnd32_eqI [of "- 2" "10737418 / 2 ^ 27 * (- 4587127 / 2 ^ 20)" "- 11743045"]
        in simp_all)
  have c: "fadd (Finite 5) (Finite (- 11743045 / 2 ^ 25)) = Finite (2437955 / 2 ^ 19)"
    by (rule fadd_eval)
      (use rnd32_eqI [of 2 "5 + - 11743045 / 2 ^ 25" 9751820] in simp_all)
  show ?thesis
    unfolding smoothStep_def kGainSmoothCoeff_val kMinGateGain_val Let_def flit_1 a b c
    by (simp add: std_clamp_def)
qed

text \<open>
  Claim C2, as amended. After every sequence of calls of \<open>init\<close>, \<open>destroy\<close>, \<open>processFrame\<close>
  and the setters on a newly constructed object, with any frames and settings, the smoothed
  gain lies in \<open>[0.001f, 1]\<close>, provided that the engine never returns NaN for the VAD
  probability and that \<open>setVadThreshold\<close> is never called with NaN. \<open>init\<close> sets the gain to
  1; \<open>processFrame\<close> on its full path (engine present, level not \<open>\<le> 0\<close>) computes
  \<open>v = gain + 0.08f * (target - gain)\<close> in single precision and sets the gain to \<open>0.001f\<close>
  when \<open>v < 0.001f\<close>, to 1 when \<open>1 < v\<close> and to \<open>v\<close> otherwise, and it leaves the gain alone
  on its other paths; no other function changes it. These equations hold in every state of
  the object, also for a gain outside the range.
\<close>

theorem smoothGain_stays_in_range:
  fixes s :: "'e RNNoiseWrapper"
  assumes "\<forall>st f. fst (engine st f) \<noteq> NaN" and "SetVadThreshold NaN \<notin> set calls"
  shows "fle (flit (1 / 1000)) (m_smoothGain (run engine RNNoiseWrapper_new calls)) \<and>
    fle (m_smoothGain (run engine RNNoiseWrapper_new calls)) (Finite 1) \<and>
    m_smoothGain (fst (init s created)) = Finite 1 \<and>
    (let r = processFrame engine s frame;
         target = targetGain (snd (snd r)) (m_vadThreshold s);
         v = fadd (m_smoothGain s) (fmul (flit (8 / 100)) (fsub target (m_smoothGain s)))
     in m_smoothGain (fst r) =
          (if m_state s \<noteq> None \<and> \<not> fle (m_suppressionLevel s) (Finite 0)
           then (if flt v (flit (1 / 1000)) then flit (1 / 1000)
                 else if flt (Finite 1) v then Finite 1 else v)
           else m_smoothGain s)) \<and>
    m_smoothGain (destroy s) = m_smoothGain s \<and>
    m_smoothGain (setSuppressionLevel s level) = m_smoothGain s \<and>
    m_smoothGain (setVadThreshold s threshold) = m_smoothGain s \<and>
    m_smoothGain (setComfortNoise s enabled) = m_smoothGain s"
proof -
  have n: "fst (engine st0 f0) \<noteq> NaN" for st0 f0 using assms(1) by simp
  have "(\<exists>g. m_smoothGain (RNNoiseWrapper_new :: 'e RNNoiseWrapper) = Finite g
            \<and> 8589935 / 2 ^ 33 \<le> g \<and> g \<le> 1) \<and>
        (\<exists>t. m_vadThreshold (RNNoiseWrapper_new :: 'e RNNoiseWrapper) = Finite t
            \<and> 0 \<le> t \<and> t \<le> 1)"
    by (intro conjI exI [of _ 1] exI [of _ "1 / 2"]) (simp_all add: RNNoiseWrapper_new_def)
  from run_gate_ok [of engine calls, OF n assms(2) this]
  have a: "fle (flit (1 / 1000)) (m_smoothGain (run engine RNNoiseWrapper_new calls))"
    "fle (m_smoothGain (run engine RNNoiseWrapper_new calls)) (Finite 1)"
    by (auto simp add: flit_milli)
  have b: "m_smoothGain (fst (init s created)) = Finite 1"
    by (simp add: init_def Let_def)
  have c: "m_smoothGain (fst (processFrame engine s frame)) =
      (let v = fadd (m_smoothGain s) (fmul (flit (8 / 100))
                 (fsub (targetGain (snd (snd (processFrame engine s frame))) (m_vadThreshold s))
                    (m_smoothGain s)))
       in if flt v (flit (1 / 1000)) then flit (1 / 1000)
          else if flt (Finite 1) v then Finite 1 else v)"
    if "m_state s \<noteq> None \<and> \<not> fle (m_suppressionLevel s) (Finite 0)"
  proof -
    from that obtain st where st: "m_state s = Some st"
      and l: "\<not> fle (m_suppressionLevel s) (Finite 0)"
      by auto
    show ?thesis
      unfolding processFrame_full_gain(1,2) [OF st l]
      by (simp add: smoothStep_def std_clamp_def Let_def kGainSmoothCoeff_def kMinGateGain_def)
  qed
  have d: "m_smoothGain (fst (processFrame engine s frame)) = m_smoothGain s"
    if "\<not> (m_state s \<noteq> None \<and> \<not> fle (m_suppressionLevel s) (Finite 0))"
  proof (cases "m_state s")
    case None
    then show ?thesis by (simp add: processFrame_uninitialized)
  next
    case (Some st)
    with that have "fle (m_suppressionLevel s) (Finite 0)" by simp
    then show ?thesis by (simp add: processFrame_passthrough [OF Some])
  qed
  have e: "m_smoothGain (destroy s) = m_smoothGain s"
    "m_smoothGain (setSuppressionLevel s level) = m_smoothGain s"
    "m_smoothGain (setVadThreshold s threshold) = m_smoothGain s"
    "m_smoothGain (setComfortNoise s enabled) = m_smoothGain s"
    by (simp_all add: destroy_def setSuppressionLevel_def setVadThreshold_def setComfortNoise_def)
  show ?thesis
    unfolding Let_def using a b c [unfolded Let_def] d e by (simp only: if_split) blast
qed

theorem smoothGain_stays_in_range_witness:
  "let e = (\<lambda>(st::nat) (f::nat \<Rightarrow> float). (Finite (1 / 4), st, f));
       frame = (\<lambda>i. Finite (1 / 2));
       calls = [Init (Some 0), SetVadThreshold MInf, ProcessFrame frame,
                SetVadThreshold (Finite (3 / 4)), ProcessFrame frame];
       s = run e RNNoiseWrapper_new calls;
       t = (RNNoiseWrapper_new :: nat RNNoiseWrapper)\<lparr>m_state := Some 0, m_smoothGain := Finite 5\<rparr>;
       r = processFrame e t frame
   in (\<forall>st f. fst (e st f) \<noteq> NaN) \<and> SetVadThreshold NaN \<notin> set calls \<and>
      fle (flit (1 / 1000)) (m_smoothGain s) \<and> fle (m_smoothGain s) (Finite 1) \<and>
      m_state t \<noteq> None \<and> \<not> fle (m_suppressionLevel t) (Finite 0) \<and>
      m_smoothGain (fst r) = Finite 1"
proof -
  let ?e = "\<lambda>(st::nat) (f::nat \<Rightarrow> float). (Finite (1 / 4), st, f)"
  let ?f = "\<lambda>i::nat. Finite (1 / 2)"
  let ?calls = "[Init (Some 0), SetVadThreshold MInf, ProcessFrame ?f,
                SetVadThreshold (Finite (3 / 4)), ProcessFrame ?f] :: nat call list"
  let ?t = "(RNNoiseWrapper_new :: nat RNNoiseWrapper)\<lparr>m_state := Some 0, m_smoothGain := Finite 5\<rparr>"
  have h1: "\<forall>st f. fst (?e st f) \<noteq> NaN" by simp
  have h2: "SetVadThreshold NaN \<notin> set ?calls" by simp
  note T = smoothGain_stays_in_range [OF h1 h2, of ?t _ ?f, unfolded Let_def]
  have t: "m_state ?t \<noteq> None" "\<not> fle (m_suppressionLevel ?t) (Finite 0)"
    "m_smoothGain ?t = Finite 5" "m_vadThreshold ?t = Finite (1 / 2)"
    by (simp_all add: RNNoiseWrapper_new_def)
  have v: "snd (snd (processFrame ?e ?t ?f)) = Finite (1 / 4)"
    by (simp add: processFrame_def Let_def split_beta denoiseBlend_def RNNoiseWrapper_new_def)
  note tg = targetGain_example
  have "m_smoothGain (fst (processFrame ?e ?t ?f)) =
      smoothStep (Finite 5) (Finite (10492051 / 2 ^ 24))"
    using T [THEN conjunct2, THEN conjunct2, THEN conjunct2, THEN conjunct1] t(1,2)
    unfolding v t(3,4) tg
    by (simp add: smoothStep_def std_clamp_def Let_def kGainSmoothCoeff_def kMinGateGain_def)
  then have g: "m_smoothGain (fst (processFrame ?e ?t ?f)) = Finite 1"
    unfolding smoothStep_above .
  show ?thesis
    unfolding Let_def
    using h1 h2 T [THEN conjunct1] T [THEN conjunct2, THEN conjunct1] t(1,2) g by blast
qed

text \<open>
  Claim C2, as stated, asks for this with any VAD values and settings. After \<open>init\<close> and
  \<open>setVadThreshold(NaN)\<close>, which stores NaN because \<open>std::clamp\<close> returns a NaN argument, one
  frame makes the smoothed gain NaN, whatever the engine returns; and with the default
  threshold a frame for which the engine returns NaN does the same. NaN is not in
  \<open>[0.001, 1]\<close>: both comparisons are false.
\<close>

theorem smoothGain_becomes_NaN:
  "let e = (\<lambda>(st::nat) (f::nat \<Rightarrow> float). (Finite (1 / 2), st, f));
       n = (\<lambda>(st::nat) (f::nat \<Rightarrow> float). (NaN, st, f));
       frame = (\<lambda>i. Finite 0);
       s = run e RNNoiseWrapper_new [Init (Some 0), SetVadThreshold NaN, ProcessFrame frame];
       t = run n RNNoiseWrapper_new [Init (Some 0), ProcessFrame frame]
   in m_vadThreshold s = NaN \<and> m_smoothGain s = NaN \<and> m_smoothGain t = NaN \<and>
      \<not> fle (flit (1 / 1000)) (m_smoothGain s) \<and> \<not> fle (m_smoothGain s) (Finite 1)"
proof -
  let ?e = "\<lambda>(st::nat) (f::nat \<Rightarrow> float). (Finite (1 / 2), st, f)"
  let ?n = "\<lambda>(st::nat) (f::nat \<Rightarrow> float). (NaN, st, f)"
  let ?f = "\<lambda>i::nat. Finite 0"
  let ?sa = "setVadThreshold (fst (init (RNNoiseWrapper_new :: nat RNNoiseWrapper) (Some 0))) NaN"
  let ?ta = "fst (init (RNNoiseWrapper_new :: nat RNNoiseWrapper) (Some 0))"
  have r1: "run ?e RNNoiseWrapper_new [Init (Some 0), SetVadThreshold NaN, ProcessFrame ?f]
      = fst (processFrame ?e ?sa ?f)"
    by (simp add: run_def)
  have r2: "run ?n RNNoiseWrapper_new [Init (Some 0), ProcessFrame ?f]
      = fst (processFrame ?n ?ta ?f)"
    by (simp add: run_def)
  have a: "m_state ?sa = Some 0" "\<not> fle (m_suppressionLevel ?sa) (Finite 0)"
    "m_vadThreshold ?sa = NaN" "m_smoothGain ?sa = Finite 1"
    by (simp_all add: init_def setVadThreshold_def std_clamp_def RNNoiseWrapper_new_def Let_def)
  have b: "m_state ?ta = Some 0" "\<not> fle (m_suppressionLevel ?ta) (Finite 0)"
    "m_vadThreshold ?ta = Finite (1 / 2)" "m_smoothGain ?ta = Finite 1"
    by (simp_all add: init_def RNNoiseWrapper_new_def Let_def)
  have t1: "targetGain v NaN = NaN" for v
    by (simp add: targetGain_def Let_def)
  have t2: "targetGain NaN T = NaN" for T
    by (cases T) (simp_all add: targetGain_def Let_def fsub_def)
  have s: "smoothStep g NaN = NaN" for g
    by (simp add: smoothStep_def std_clamp_def Let_def)
  have g1: "m_smoothGain (fst (processFrame ?e ?sa ?f)) = NaN"
    unfolding processFrame_full_gain(1) [OF a(1,2)] a(3) t1 s ..
  have vn: "fst (denoiseBlend ?n st l f) = NaN" for st l f
    by (simp add: denoiseBlend_vad)
  have g2: "m_smoothGain (fst (processFrame ?n ?ta ?f)) = NaN"
    unfolding processFrame_full_gain(1) [OF b(1,2)] vn t2 s ..
  have th: "m_vadThreshold (fst (processFrame ?e ?sa ?f)) = NaN"
    unfolding processFrame_full_gain(5) [OF a(1,2)] a(3) ..
  show ?thesis
    unfolding Let_def r1 r2 g1 g2 th by simp
qed

section \<open>The frame processor: comfort noise\<close>

lemma for_loop_pointwise:
  "for_loop n (\<lambda>i f. f(i := h i (f i))) frame = (\<lambda>j. if j < n then h j (frame j) else frame j)"
proof (induction n)
  case 0
  then show ?case by simp
next
  case (Suc n)
  show ?case
    unfolding for_loop.simps Suc by (rule ext) (simp add: less_Suc_eq)
qed

lemma applyGateGain_samples:
  "applyGateGain g frame = (\<lambda>i. if i < 480 then fmul (frame i) g else frame i)"
  unfolding applyGateGain_def kRNNoiseFrameSize_def
  by (rule for_loop_pointwise [where h = "\<lambda>i x. fmul x g"])

lemma comfort_loop:
  "for_loop n (\<lambda>i (f, ns). case comfortNoiseSample ns of
                              (sample, ns) \<Rightarrow> (f(i := fadd (f i) (fmul sample c)), ns))
       (frame, ns0) =
     (\<lambda>j. if j < n
           then fadd (frame j)
                  (fmul (fmul (fdiv (round32 (real_of_int (sint ((xorshift32 ^^ Suc j) ns0))))
                                    (flit 2147483648))
                              kComfortNoiseLevel) c)
           else frame j,
      (xorshift32 ^^ n) ns0)"
proof (induction n)
  case 0
  then show ?case by simp
next
  case (Suc n)
  show ?case
    unfolding for_loop.simps Suc
    by (auto simp add: comfortNoiseSample_def Let_def less_Suc_eq fun_eq_iff)
qed

lemma addComfortNoise_samples:
  "addComfortNoise enabled g ns frame =
     (if enabled \<and> flt g (flit (1 / 10))
      then (\<lambda>i. if i < 480
                 then fadd (frame i)
                        (fmul (fmul (fdiv (round32 (real_of_int (sint ((xorshift32 ^^ Suc i) ns))))
                                          (Finite (2 ^ 31)))
                                    (flit (1 / 1000)))
                              (fdiv (fsub (flit (1 / 10)) g) (flit (1 / 10))))
                 else frame i,
            (xorshift32 ^^ 480) ns)
      else (frame, ns))"
  by (auto simp add: addComfortNoise_def comfort_loop kRNNoiseFrameSize_def
      kComfortNoiseLevel_def Let_def fun_eq_iff flit_2_31)

lemma xorshift32_seed: "xorshift32 0x12345678 = 0x87985AA5"
  by (simp add: xorshift32_def Let_def)

lemma smoothStep_at_floor:
  "smoothStep (Finite (8589935 / 2 ^ 33)) kMinGateGain = Finite (8589935 / 2 ^ 33)"
proof -
  have "smoothStep (Finite (8589935 / 2 ^ 33)) kMinGateGain =
    Finite (max (8589935 / 2 ^ 33)
      (rnd32 (8589935 / 2 ^ 33
         + rnd32 (10737418 / 2 ^ 27 * rnd32 (8589935 / 2 ^ 33 - 8589935 / 2 ^ 33)))))"
    using rnd32_kMin by (rule smoothStep_floor) simp_all
  then show ?thesis using rnd32_kMin by simp
qed

lemma example_scaling:
  "fmul (fmul (Finite (1 / 2)) (flit 32767)) (fdiv (Finite 1) (flit 32767)) = Finite (1 / 2)"
proof -
  have a: "fmul (Finite (1 / 2)) (Finite 32767) = Finite (32767 / 2)"
    by (rule fmul_eval) (use rnd32_eqI [of 13 "1 / 2 * 32767" 16776704] in simp_all)
  have b: "fdiv (Finite 1) (Finite 32767) = Finite (32769 / 2 ^ 30)"
    by (rule fdiv_eval) (use rnd32_eqI [of "- 15" "1 / 32767" 8388864] in simp_all)
  have c: "fmul (Finite (32767 / 2)) (Finite (32769 / 2 ^ 30)) = Finite (1 / 2)"
    by (rule fmul_eval)
      (use rnd32_eqI [of "- 2" "32767 / 2 * (32769 / 2 ^ 30)" 16777216] in simp_all)
  show ?thesis unfolding flit_32767 a b c ..
qed

lemma example_gated: "fmul (Finite (1 / 2)) (Finite (8589935 / 2 ^ 33)) = Finite (8589935 / 2 ^ 34)"
  by (rule fmul_eval)
    (use rnd32_eqI [of "- 11" "1 / 2 * (8589935 / 2 ^ 33)" 8589935] in simp_all)

lemma example_noise:
  "fadd (Finite (8589935 / 2 ^ 34))
     (fmul (fmul (fdiv (round32 (- 2020058459)) (Finite (2 ^ 31))) (Finite (8589935 / 2 ^ 33)))
        (fdiv (fsub (Finite (13421773 / 2 ^ 27)) (Finite (8589935 / 2 ^ 33)))
           (Finite (13421773 / 2 ^ 27)))) = Finite (- 7408929 / 2 ^ 34)"
proof -
  have "rnd32 (- 2020058459) = - 2020058496"
    using rnd32_eqI [of 30 "- 2020058459" "- 15781707"] by simp
  then have a: "round32 (- 2020058459) = Finite (- 2020058496)"
    by (simp add: round32_small)
  have b: "fdiv (Finite (- 2020058496)) (Finite (2 ^ 31)) = Finite (- 15781707 / 2 ^ 24)"
    by (rule fdiv_eval)
      (use rnd32_eqI [of "- 1" "- 2020058496 / 2 ^ 31" "- 15781707"] in simp_all)
  have c: "fmul (Finite (- 15781707 / 2 ^ 24)) (Finite (8589935 / 2 ^ 33))
      = Finite (- 16160469 / 2 ^ 34)"
    by (rule fmul_eval)
      (use rnd32_eqI [of "- 11" "- 15781707 / 2 ^ 24 * (8589935 / 2 ^ 33)" "- 16160469"]
        in simp_all)
  have d: "fsub (Finite (13421773 / 2 ^ 27)) (Finite (8589935 / 2 ^ 33))
      = Finite (13287555 / 2 ^ 27)"
    by (rule fsub_eval)
      (use rnd32_eqI [of "- 4" "13421773 / 2 ^ 27 - 8589935 / 2 ^ 33" 13287555] in simp_all)
  have e: "fdiv (Finite (13287555 / 2 ^ 27)) (Finite (13421773 / 2 ^ 27))
      = Finite (4152361 / 2 ^ 22)"
    by (rule fdiv_eval)
      (use rnd32_eqI [of "- 1" "13287555 / 2 ^ 27 / (13421773 / 2 ^ 27)" 16609444] in simp_all)
  have f: "fmul (Finite (- 16160469 / 2 ^ 34)) (Finite (4152361 / 2 ^ 22))
      = Finite (- 999929 / 2 ^ 30)"
    by (rule fmul_eval)
      (use rnd32_eqI [of "- 11" "- 16160469 / 2 ^ 34 * (4152361 / 2 ^ 22)" "- 15998864"]
        in simp_all)
  have g: "fadd (Finite (8589935 / 2 ^ 34)) (Finite (- 999929 / 2 ^ 30))
      = Finite (- 7408929 / 2 ^ 34)"
    by (rule fadd_eval)
      (use rnd32_eqI [of "- 12" "8589935 / 2 ^ 34 + - 999929 / 2 ^ 30" "- 14817858"]
        in simp_all)
  show ?thesis unfolding a b c d e f g ..
qed

text \<open>
  Claim C7. On the full path, let \<open>blended\<close> be the frame after the blend and \<open>g\<close> the new
  smoothed gain. If comfort noise is enabled and \<open>g < 0.1\<close>, output sample \<open>i\<close> of the 480 is
  \<open>blended i * g\<close> plus one noise sample times \<open>(0.1 - g) / 0.1\<close>; the noise sample is the
  generator state after \<open>i + 1\<close> further xorshift32 steps, read as a signed 32-bit integer,
  converted to \<open>float\<close>, divided by \<open>2 ^ 31\<close> and multiplied by 0.001, and the generator ends
  480 steps on. If comfort noise is disabled, the output is the frame as the gain
  multiplication left it, whatever the gain, and the generator state is unchanged. One
  xorshift32 step is \<open>x ^= x << 13; x ^= x >> 17; x ^= x << 5\<close>. The operations are those of
  single precision, in the order of the source.
\<close>

theorem comfort_noise_samples:
  assumes "m_state s = Some st" and "\<not> fle (m_suppressionLevel s) (Finite 0)"
    and "denoiseBlend engine st (m_suppressionLevel s) frame = (vad, st', blended)"
    and "processFrame engine s frame = (s', out, ret)"
  shows "let g = m_smoothGain s'; ns = m_noiseState s
         in (m_comfortNoiseEnabled s \<and> flt g (flit (1 / 10)) \<longrightarrow>
               (\<forall>i<480. out i =
                  fadd (fmul (blended i) g)
                    (fmul (fmul (fdiv (round32 (real_of_int (sint ((xorshift32 ^^ Suc i) ns))))
                                      (Finite (2 ^ 31)))
                                (flit (1 / 1000)))
                          (fdiv (fsub (flit (1 / 10)) g) (flit (1 / 10))))) \<and>
               m_noiseState s' = (xorshift32 ^^ 480) ns) \<and>
            (\<not> m_comfortNoiseEnabled s \<longrightarrow>
               out = applyGateGain g blended \<and> (\<forall>i<480. out i = fmul (blended i) g) \<and>
               m_noiseState s' = ns) \<and>
            (\<forall>x. xorshift32 x =
               (let a = x XOR push_bit 13 x; b = a XOR drop_bit 17 a in b XOR push_bit 5 b))"
proof -
  define g where "g = smoothStep (m_smoothGain s) (targetGain vad (m_vadThreshold s))"
  obtain out' ns' where C:
    "addComfortNoise (m_comfortNoiseEnabled s) g (m_noiseState s) (applyGateGain g blended)
       = (out', ns')"
    by (cases "addComfortNoise (m_comfortNoiseEnabled s) g (m_noiseState s) (applyGateGain g blended)")
  note P = processFrame_full [OF assms(1,2,3) g_def C]
  have r: "s' = fst (processFrame engine s frame)" "out = fst (snd (processFrame engine s frame))"
    using assms(4) by simp_all
  have f: "m_smoothGain s' = g" "out = out'" "m_noiseState s' = ns'"
    unfolding r P by simp_all
  note A = C [unfolded addComfortNoise_samples applyGateGain_samples]
  have on: "(\<forall>i<480. out i =
                  fadd (fmul (blended i) g)
                    (fmul (fmul (fdiv (round32 (real_of_int (sint ((xorshift32 ^^ Suc i) (m_noiseState s)))))
                                      (Finite (2 ^ 31)))
                                (flit (1 / 1000)))
                          (fdiv (fsub (flit (1 / 10)) g) (flit (1 / 10))))) \<and>
               m_noiseState s' = (xorshift32 ^^ 480) (m_noiseState s)"
    if "m_comfortNoiseEnabled s \<and> flt g (flit (1 / 10))"
    using A that unfolding f by auto
  have off: "out = applyGateGain g blended \<and> (\<forall>i<480. out i = fmul (blended i) g) \<and>
               m_noiseState s' = m_noiseState s"
    if "\<not> m_comfortNoiseEnabled s"
    using C that unfolding f by (auto simp add: addComfortNoise_def applyGateGain_samples)
  have x: "\<forall>x. xorshift32 x =
               (let a = x XOR push_bit 13 x; b = a XOR drop_bit 17 a in b XOR push_bit 5 b)"
    by (simp add: xorshift32_def Let_def)
  show ?thesis
    unfolding Let_def f(1) using on off x unfolding Let_def by blast
qed

theorem comfort_noise_samples_witness:
  "let e = (\<lambda>(st::nat) (f::nat \<Rightarrow> float). (Finite 0, st, f));
       frame = (\<lambda>i. Finite (1 / 2));
       s = (RNNoiseWrapper_new :: nat RNNoiseWrapper)
             \<lparr>m_state := Some 0, m_smoothGain := Finite (8589935 / 2 ^ 33)\<rparr>;
       r = processFrame e s frame;
       s2 = setComfortNoise s False;
       r2 = processFrame e s2 frame
   in m_state s = Some 0 \<and> \<not> fle (m_suppressionLevel s) (Finite 0) \<and>
      m_comfortNoiseEnabled s \<and> flt (m_smoothGain (fst r)) (flit (1 / 10)) \<and>
      fst (snd r) 0 = Finite (- 7408929 / 2 ^ 34) \<and>
      m_noiseState (fst r) = (xorshift32 ^^ 480) 0x12345678 \<and>
      \<not> m_comfortNoiseEnabled s2 \<and> fst (snd r2) 0 = Finite (8589935 / 2 ^ 34) \<and>
      m_noiseState (fst r2) = 0x12345678"
proof -
  let ?e = "\<lambda>(st::nat) (f::nat \<Rightarrow> float). (Finite 0, st, f)"
  let ?f = "\<lambda>i::nat. Finite (1 / 2)"
  let ?k = "Finite (8589935 / 2 ^ 33)"
  let ?sa = "(RNNoiseWrapper_new :: nat RNNoiseWrapper)\<lparr>m_state := Some 0, m_smoothGain := ?k\<rparr>"
  let ?sb = "setComfortNoise ?sa False"
  let ?d = "denoiseBlend ?e 0 (Finite 1) ?f"
  have l1: "for_loop n (\<lambda>i f. f(i := fmul (f i) c)) fr = (\<lambda>j. if j < n then fmul (fr j) c else fr j)"
    for n c and fr :: "nat \<Rightarrow> float"
    by (rule for_loop_pointwise [where h = "\<lambda>i x. fmul x c"])
  have "snd (snd ?d) 0 = fmul (fmul (Finite (1 / 2)) (flit 32767)) (fdiv (Finite 1) (flit 32767))"
    by (simp add: denoiseBlend_def Let_def l1 kRNNoiseFrameSize_def)
  then have b0: "snd (snd ?d) 0 = Finite (1 / 2)" unfolding example_scaling .
  have a: "m_state ?sa = Some 0" "\<not> fle (m_suppressionLevel ?sa) (Finite 0)"
    "m_suppressionLevel ?sa = Finite 1"
    "m_comfortNoiseEnabled ?sa" "m_noiseState ?sa = 0x12345678" "m_smoothGain ?sa = ?k"
    "m_vadThreshold ?sa = Finite (1 / 2)"
    by (simp_all add: RNNoiseWrapper_new_def)
  have b: "m_state ?sb = Some 0" "\<not> fle (m_suppressionLevel ?sb) (Finite 0)"
    "m_suppressionLevel ?sb = Finite 1"
    "\<not> m_comfortNoiseEnabled ?sb" "m_noiseState ?sb = 0x12345678" "m_smoothGain ?sb = ?k"
    "m_vadThreshold ?sb = Finite (1 / 2)"
    by (simp_all add: RNNoiseWrapper_new_def setComfortNoise_def)
  have "targetGain (Finite 0) (Finite (1 / 2)) = kMinGateGain"
    by (rule targetGain_zero_vad) (simp add: kVadHysteresis_val)
  then have t: "smoothStep ?k (targetGain (Finite 0) (Finite (1 / 2))) = ?k"
    by (simp only: smoothStep_at_floor)
  have ga: "m_smoothGain (fst (processFrame ?e ?sa ?f)) = ?k"
    unfolding processFrame_full_gain(1) [OF a(1,2)] a(6,7) denoiseBlend_vad fst_conv t ..
  have gb: "m_smoothGain (fst (processFrame ?e ?sb ?f)) = ?k"
    unfolding processFrame_full_gain(1) [OF b(1,2)] b(6,7) denoiseBlend_vad fst_conv t ..
  have ra: "processFrame ?e ?sa ?f = (fst (processFrame ?e ?sa ?f),
      fst (snd (processFrame ?e ?sa ?f)), snd (snd (processFrame ?e ?sa ?f)))" by simp
  have rb: "processFrame ?e ?sb ?f = (fst (processFrame ?e ?sb ?f),
      fst (snd (processFrame ?e ?sb ?f)), snd (snd (processFrame ?e ?sb ?f)))" by simp
  have da: "denoiseBlend ?e 0 (m_suppressionLevel ?sa) ?f = (fst ?d, fst (snd ?d), snd (snd ?d))"
    by (simp only: a(3) prod.collapse)
  have db: "denoiseBlend ?e 0 (m_suppressionLevel ?sb) ?f = (fst ?d, fst (snd ?d), snd (snd ?d))"
    by (simp only: b(3) prod.collapse)
  note A = comfort_noise_samples [OF a(1,2) da ra, unfolded Let_def ga a(5),
      THEN conjunct1, rule_format]
  note B = comfort_noise_samples [OF b(1,2) db rb, unfolded Let_def gb b(5),
      THEN conjunct2, THEN conjunct1, rule_format, OF b(4)]
  have lt: "flt ?k (flit (1 / 10))" by (simp add: flit_tenth)
  have on: "m_comfortNoiseEnabled ?sa \<and> flt ?k (flit (1 / 10))" using a(4) lt by simp
  have "fst (snd (processFrame ?e ?sa ?f)) 0 =
      fadd (fmul (Finite (1 / 2)) ?k)
        (fmul (fmul (fdiv (round32 (real_of_int (sint (xorshift32 (0x12345678 :: 32 word)))))
                       (Finite (2 ^ 31))) (flit (1 / 1000)))
           (fdiv (fsub (flit (1 / 10)) ?k) (flit (1 / 10))))"
    using A [OF on, THEN conjunct1, THEN spec [where x = 0]] unfolding b0 by simp
  then have oa: "fst (snd (processFrame ?e ?sa ?f)) 0 = Finite (- 7408929 / 2 ^ 34)"
    unfolding xorshift32_seed flit_milli flit_tenth example_gated
    using example_noise by simp
  have "fst (snd (processFrame ?e ?sb ?f)) 0 = fmul (Finite (1 / 2)) ?k"
    using B [THEN conjunct2, THEN conjunct1, THEN spec [where x = 0]] unfolding b0 by simp
  then have ob: "fst (snd (processFrame ?e ?sb ?f)) 0 = Finite (8589935 / 2 ^ 34)"
    unfolding example_gated .
  have ga': "flt (m_smoothGain (fst (processFrame ?e ?sa ?f))) (flit (1 / 10))"
    unfolding ga by (rule lt)
  show ?thesis
    unfolding Let_def
    using a(1,2,4) ga' oa A [OF on, THEN conjunct2] b(4) ob B [THEN conjunct2, THEN conjunct2]
    by (simp only: simp_thms)
qed

end
